theory Spec2Isabelle
  imports Complex_Main "HOL-Library.AList" "HOL-Library.List_Lexorder"
    "HOL-Library.Code_Target_Nat"
begin

section \<open>Strings\<close>

text \<open>
  A JavaScript string is a sequence of UTF-16 code units; the regular expressions of
  \<^verbatim>\<open>work_tracker.js\<close> carry no \<^verbatim>\<open>u\<close> flag, so every class and every \<^verbatim>\<open>.\<close> consumes one
  code unit. A string is therefore modelled as the list of its code units. ASCII literals
  are written through \<open>ascii\<close>, other literals as explicit code units.
\<close>

type_synonym jsstring = "nat list"

definition ascii :: "string \<Rightarrow> jsstring" where
  "ascii s = map of_char s"

definition isDigit :: "nat \<Rightarrow> bool" where
  \<comment> \<open>\<^verbatim>\<open>\d\<close>: the ASCII digits only\<close>
  "isDigit c \<longleftrightarrow> 48 \<le> c \<and> c \<le> 57"

definition isLineTerminator :: "nat \<Rightarrow> bool" where
  "isLineTerminator c \<longleftrightarrow> c = 0x0A \<or> c = 0x0D \<or> c = 0x2028 \<or> c = 0x2029"

definition isSpace :: "nat \<Rightarrow> bool" where
  \<comment> \<open>\<^verbatim>\<open>\s\<close>, also the characters removed by \<^verbatim>\<open>trim()\<close>: WhiteSpace and LineTerminator\<close>
  "isSpace c \<longleftrightarrow>
     c = 0x09 \<or> c = 0x0B \<or> c = 0x0C \<or> c = 0x20 \<or> c = 0xA0 \<or> c = 0x1680 \<or>
     (0x2000 \<le> c \<and> c \<le> 0x200A) \<or> c = 0x202F \<or> c = 0x205F \<or> c = 0x3000 \<or>
     c = 0xFEFF \<or> isLineTerminator c"

definition nonSpace :: "nat \<Rightarrow> bool" where
  \<comment> \<open>\<^verbatim>\<open>\S\<close>\<close>
  "nonSpace c \<longleftrightarrow> \<not> isSpace c"

definition digitOrDot :: "nat \<Rightarrow> bool" where
  \<comment> \<open>\<^verbatim>\<open>[\d.]\<close>\<close>
  "digitOrDot c \<longleftrightarrow> isDigit c \<or> c = 0x2E"

definition notBar :: "nat \<Rightarrow> bool" where
  \<comment> \<open>\<^verbatim>\<open>[^|]\<close>\<close>
  "notBar c \<longleftrightarrow> c \<noteq> 0x7C"

definition anyChar :: "nat \<Rightarrow> bool" where
  \<comment> \<open>\<^verbatim>\<open>.\<close> without the \<^verbatim>\<open>s\<close> flag: anything but a line terminator\<close>
  "anyChar c \<longleftrightarrow> \<not> isLineTerminator c"

definition trim :: "jsstring \<Rightarrow> jsstring" where
  "trim s = rev (dropWhile isSpace (rev (dropWhile isSpace s)))"

text \<open>\<^verbatim>\<open>s.split(sep)\<close> for a separator of one code unit, and \<^verbatim>\<open>parts.join(sep)\<close>.\<close>

fun splitOn :: "nat \<Rightarrow> jsstring \<Rightarrow> jsstring list" where
  "splitOn sep [] = [[]]"
| "splitOn sep (c # cs) =
     (if c = sep then [] # splitOn sep cs
      else (case splitOn sep cs of [] \<Rightarrow> [[c]] | p # ps \<Rightarrow> (c # p) # ps))"

fun joinWith :: "jsstring \<Rightarrow> jsstring list \<Rightarrow> jsstring" where
  "joinWith sep [] = []"
| "joinWith sep [x] = x"
| "joinWith sep (x # y # ys) = x @ sep @ joinWith sep (y # ys)"

text \<open>\<^verbatim>\<open>s.includes(sub)\<close>.\<close>

fun isPrefixOf :: "jsstring \<Rightarrow> jsstring \<Rightarrow> bool" where
  "isPrefixOf [] s = True"
| "isPrefixOf (p # ps) [] = False"
| "isPrefixOf (p # ps) (c # cs) = (p = c \<and> isPrefixOf ps cs)"

fun jsIncludes :: "jsstring \<Rightarrow> jsstring \<Rightarrow> bool" where
  "jsIncludes [] sub = (sub = [])"
| "jsIncludes (c # cs) sub = (isPrefixOf sub (c # cs) \<or> jsIncludes cs sub)"

text \<open>The decimal text of an integer, as a template literal prints it.\<close>

fun showNat :: "nat \<Rightarrow> jsstring" where
  "showNat n = (if n < 10 then [48 + n] else showNat (n div 10) @ [48 + n mod 10])"

declare showNat.simps [simp del]

definition showInt :: "int \<Rightarrow> jsstring" where
  "showInt i = (if i < 0 then 0x2D # showNat (nat (- i)) else showNat (nat i))"

section \<open>Regular expressions\<close>

text \<open>
  The patterns of the program are sequences of anchors, literal characters, quantified
  character classes and unnested capturing groups. \<open>matchSeq\<close> is the backtracking matcher
  of ECMAScript on such a sequence: a greedy quantifier first takes one more character and
  falls back to the rest of the pattern, a lazy one first tries the rest of the pattern.
  Its arguments are the pattern, the whole input, the input still to be read, the input
  as it was where the open group started, and the captures made so far.
\<close>

datatype node =
    Bol                       \<comment> \<open>\<^verbatim>\<open>^\<close>\<close>
  | Eol                       \<comment> \<open>\<^verbatim>\<open>$\<close>\<close>
  | Lit nat                   \<comment> \<open>a literal character\<close>
  | Rep nat "nat \<Rightarrow> bool"     \<comment> \<open>\<^verbatim>\<open>C{n}\<close>\<close>
  | Star "nat \<Rightarrow> bool"        \<comment> \<open>\<^verbatim>\<open>C*\<close>\<close>
  | Plus "nat \<Rightarrow> bool"        \<comment> \<open>\<^verbatim>\<open>C+\<close>\<close>
  | LazyStar "nat \<Rightarrow> bool"    \<comment> \<open>\<^verbatim>\<open>C*?\<close>\<close>
  | Open                      \<comment> \<open>\<^verbatim>\<open>(\<close>\<close>
  | Close                     \<comment> \<open>\<^verbatim>\<open>)\<close>\<close>

fun matchSeq ::
  "node list \<Rightarrow> jsstring \<Rightarrow> jsstring \<Rightarrow> jsstring \<Rightarrow> jsstring list \<Rightarrow> jsstring list option"
where
  "matchSeq [] inp s st caps = Some caps"
| "matchSeq (Bol # r) inp s st caps =
     (if length s = length inp then matchSeq r inp s st caps else None)"
| "matchSeq (Eol # r) inp s st caps =
     (if s = [] then matchSeq r inp s st caps else None)"
| "matchSeq (Lit c # r) inp s st caps =
     (case s of [] \<Rightarrow> None
      | x # t \<Rightarrow> if x = c then matchSeq r inp t st caps else None)"
| "matchSeq (Rep 0 P # r) inp s st caps = matchSeq r inp s st caps"
| "matchSeq (Rep (Suc n) P # r) inp s st caps =
     (case s of [] \<Rightarrow> None
      | x # t \<Rightarrow> if P x then matchSeq (Rep n P # r) inp t st caps else None)"
| "matchSeq (Star P # r) inp s st caps =
     (case s of [] \<Rightarrow> matchSeq r inp s st caps
      | x # t \<Rightarrow>
          if P x then
            (case matchSeq (Star P # r) inp t st caps of
               Some res \<Rightarrow> Some res
             | None \<Rightarrow> matchSeq r inp s st caps)
          else matchSeq r inp s st caps)"
| "matchSeq (Plus P # r) inp s st caps =
     (case s of [] \<Rightarrow> None
      | x # t \<Rightarrow> if P x then matchSeq (Star P # r) inp t st caps else None)"
| "matchSeq (LazyStar P # r) inp s st caps =
     (case matchSeq r inp s st caps of
        Some res \<Rightarrow> Some res
      | None \<Rightarrow>
          (case s of [] \<Rightarrow> None
           | x # t \<Rightarrow> if P x then matchSeq (LazyStar P # r) inp t st caps else None))"
| "matchSeq (Open # r) inp s st caps = matchSeq r inp s s caps"
| "matchSeq (Close # r) inp s st caps =
     matchSeq r inp s st (caps @ [take (length st - length s) st])"

text \<open>
  \<^verbatim>\<open>str.match(re)\<close> and \<^verbatim>\<open>re.test(str)\<close> for a pattern without the \<^verbatim>\<open>g\<close> flag: the match is
  tried at index 0, then 1, and so on; the result is the captures \<^verbatim>\<open>m[1]\<close>, \<^verbatim>\<open>m[2]\<close>, ...
  of the first index that matches, or \<open>None\<close> for \<^verbatim>\<open>null\<close>.
\<close>

fun matchFrom :: "node list \<Rightarrow> jsstring \<Rightarrow> jsstring \<Rightarrow> jsstring list option" where
  "matchFrom re inp [] = matchSeq re inp [] [] []"
| "matchFrom re inp (c # cs) =
     (case matchSeq re inp (c # cs) [] [] of
        Some res \<Rightarrow> Some res
      | None \<Rightarrow> matchFrom re inp cs)"

definition jsMatch :: "node list \<Rightarrow> jsstring \<Rightarrow> jsstring list option" where
  "jsMatch re s = matchFrom re s s"

definition jsTest :: "node list \<Rightarrow> jsstring \<Rightarrow> bool" where
  "jsTest re s \<longleftrightarrow> jsMatch re s \<noteq> None"

section \<open>Time helpers\<close>

text \<open>
  \<^verbatim>\<open>Number(s)\<close> is modelled on the unsigned decimal integer literals, the only arguments it
  receives from a time that passed \<open>isValidTime\<close>. Any other argument (for which JavaScript
  gives \<^verbatim>\<open>NaN\<close> or reads another literal form) is \<open>None\<close>.
\<close>

definition digitsValue :: "jsstring \<Rightarrow> nat" where
  "digitsValue ds = foldl (\<lambda>acc c. acc * 10 + (c - 48)) 0 ds"

definition jsNumber :: "jsstring \<Rightarrow> int option" where
  "jsNumber s = (if s \<noteq> [] \<and> list_all isDigit s then Some (int (digitsValue s)) else None)"

definition toMin :: "jsstring \<Rightarrow> int option" where
  "toMin t =
     (case splitOn 0x3A t of
        h # m # _ \<Rightarrow>
          (case (jsNumber h, jsNumber m) of
             (Some hv, Some mv) \<Rightarrow> Some (hv * 60 + mv)
           | _ \<Rightarrow> None)
      | _ \<Rightarrow> None)"

definition timePattern :: "node list" where
  \<comment> \<open>\<^verbatim>\<open>/^\d{2}:\d{2}$/\<close>\<close>
  "timePattern = [Bol, Rep 2 isDigit, Lit 0x3A, Rep 2 isDigit, Eol]"

definition isValidTime :: "jsstring \<Rightarrow> bool" where
  "isValidTime t \<longleftrightarrow>
     jsTest timePattern t \<and>
     (case toMin t of Some v \<Rightarrow> 0 \<le> v \<and> v < 1440 | None \<Rightarrow> False)"

definition datePattern :: "node list" where
  \<comment> \<open>\<^verbatim>\<open>/^\d{4}-\d{2}-\d{2}$/\<close>, the shape that \<^verbatim>\<open>isValidDate\<close> demands of a date\<close>
  "datePattern =
     [Bol, Rep 4 isDigit, Lit 0x2D, Rep 2 isDigit, Lit 0x2D, Rep 2 isDigit, Eol]"

definition isDateShaped :: "jsstring \<Rightarrow> bool" where
  "isDateShaped d \<longleftrightarrow> jsTest datePattern d"

section \<open>Rules\<close>

definition WORK_START :: int where
  \<comment> \<open>\<^verbatim>\<open>toMin('08:30')\<close>\<close>
  "WORK_START = 8 * 60 + 30"

definition FLEX_DEADLINE :: int where
  \<comment> \<open>\<^verbatim>\<open>toMin('09:10')\<close>\<close>
  "FLEX_DEADLINE = 9 * 60 + 10"

definition LUNCH_START :: int where
  \<comment> \<open>\<^verbatim>\<open>toMin('11:30')\<close>\<close>
  "LUNCH_START = 11 * 60 + 30"

definition LUNCH_END :: int where
  \<comment> \<open>\<^verbatim>\<open>toMin('13:00')\<close>\<close>
  "LUNCH_END = 13 * 60"

definition LUNCH_DURATION :: int where
  "LUNCH_DURATION = LUNCH_END - LUNCH_START"

definition REQUIRED_WORK :: int where
  "REQUIRED_WORK = 450"

definition OT_GAP :: int where
  "OT_GAP = 30"

definition OT_MIN_HOURS :: rat where
  "OT_MIN_HOURS = 1 / 2"

definition OT_HINT_GAP :: int where
  "OT_HINT_GAP = 15"

section \<open>The worktime calculation\<close>

definition calcRequiredEnd :: "int \<Rightarrow> int" where
  "calcRequiredEnd effStart =
     (if effStart < LUNCH_START then effStart + REQUIRED_WORK + LUNCH_DURATION
      else if effStart \<ge> LUNCH_END then effStart + REQUIRED_WORK
      else LUNCH_END + REQUIRED_WORK)"

text \<open>
  Minutes are integers, on which the arithmetic of JavaScript numbers is exact. Hours are
  quotients of minutes by 60 and are modelled as rationals. \<^verbatim>\<open>x.toFixed(1)\<close> on such a value
  is the decimal with one fractional digit nearest to it, the larger one on a tie.
\<close>

definition toFixed1Q :: "rat \<Rightarrow> jsstring" where
  "toFixed1Q x =
     (let n = nat \<lfloor>\<bar>x\<bar> * 10 + 1 / 2\<rfloor>
      in (if x < 0 then [0x2D] else []) @ showNat (n div 10) @ [0x2E] @ showNat (n mod 10))"

record 'n worktime =
  workHours :: 'n
  overtimeHours :: 'n
  isLate :: bool
  notes_list :: "jsstring list"
  hint :: jsstring

definition lateNote :: "jsstring \<Rightarrow> jsstring" where
  "lateNote clockIn =
     [0x26A0, 0xFE0F] @ ascii ''  '' @ [0x8FDF, 0x5230, 0xFF01, 0x6253, 0x5361, 0x65F6, 0x95F4]
       @ ascii '' '' @ clockIn @ ascii '' ''
       @ [0x8D85, 0x8FC7, 0x5F39, 0x6027, 0x622A, 0x6B62] @ ascii '' 09:10''"

definition deficitNote :: "int \<Rightarrow> jsstring" where
  "deficitNote deficit =
     [0x26A0, 0xFE0F] @ ascii ''  '' @ [0x5DE5, 0x4F5C, 0x65F6, 0x957F, 0x4E0D, 0x8DB3]
       @ ascii '' 7.5h'' @ [0xFF0C, 0x8FD8, 0x5DEE] @ ascii '' '' @ showInt deficit
       @ ascii '' '' @ [0x5206, 0x949F]"

definition effectiveStart :: "int \<Rightarrow> int" where
  \<comment> \<open>\<^verbatim>\<open>Math.max(inMin, WORK_START)\<close>\<close>
  "effectiveStart inMin = max inMin WORK_START"

definition calcMinutes :: "jsstring \<Rightarrow> int \<Rightarrow> int \<Rightarrow> rat worktime" where
  \<comment> \<open>the body of \<^verbatim>\<open>calcWorktime\<close> after the two calls of \<^verbatim>\<open>toMin\<close>\<close>
  "calcMinutes clockIn inMin outMin =
     (let effStart = effectiveStart inMin;
          late = effStart > FLEX_DEADLINE;
          notes1 = (if late then [lateNote clockIn] else []);
          requiredEnd = calcRequiredEnd effStart;
          overlapStart = max effStart LUNCH_START;
          overlapEnd = min outMin LUNCH_END;
          lunchOverlap = max 0 (overlapEnd - overlapStart);
          actualWorkMin = (outMin - effStart) - lunchOverlap;
          workMin = min (max actualWorkMin 0) REQUIRED_WORK;
          notes2 = (if actualWorkMin < REQUIRED_WORK
                    then notes1 @ [deficitNote (REQUIRED_WORK - actualWorkMin)]
                    else notes1);
          otThreshold = requiredEnd + OT_GAP;
          rawOTMin = outMin - otThreshold;
          rawOTHours = rat_of_int rawOTMin / 60;
          nextHalfHour = \<lceil>rat_of_int rawOTMin / 30\<rceil> * 30;
          gap = (if outMin > otThreshold then nextHalfHour - rawOTMin else otThreshold - outMin)
      in \<lparr> workHours = rat_of_int workMin / 60,
           overtimeHours =
             (if outMin > otThreshold \<and> rawOTHours \<ge> OT_MIN_HOURS
              then rat_of_int \<lfloor>rawOTHours * 2\<rfloor> / 2 else 0),
           isLate = late,
           notes_list = notes2,
           hint =
             (if gap > 0 \<and> gap \<le> OT_HINT_GAP then
                (if outMin > otThreshold then
                   [0xD83D, 0xDCA1] @ ascii '' '' @ [0x518D, 0x5F85] @ ascii '' '' @ showInt gap
                     @ ascii '' '' @ [0x5206, 0x949F, 0x53EF, 0x51D1, 0x6EE1] @ ascii '' ''
                     @ toFixed1Q (rat_of_int nextHalfHour / 60) @ ascii ''h '' @ [0x52A0, 0x73ED]
                 else
                   [0xD83D, 0xDCA1] @ ascii '' '' @ [0x518D, 0x5F85] @ ascii '' '' @ showInt gap
                     @ ascii '' '' @ [0x5206, 0x949F, 0x5F00, 0x59CB, 0x8BA1, 0x7B97]
                     @ ascii '' 0.5h '' @ [0x52A0, 0x73ED])
              else []) \<rparr>)"

definition calcWorktime :: "jsstring \<Rightarrow> jsstring \<Rightarrow> rat worktime option" where
  "calcWorktime clockIn clockOut =
     (case (toMin clockIn, toMin clockOut) of
        (Some inMin, Some outMin) \<Rightarrow> Some (calcMinutes clockIn inMin outMin)
      | _ \<Rightarrow> None)"

section \<open>The ledger\<close>

text \<open>
  The ledger code reads numbers with \<^verbatim>\<open>parseFloat\<close>, prints them with \<^verbatim>\<open>toFixed(1)\<close>, tests
  \<^verbatim>\<open>x > 0\<close>, adds them up, orders dates with \<^verbatim>\<open>localeCompare\<close> and builds the file path with
  \<^verbatim>\<open>path.join\<close> under the home directory. These belong to the JavaScript runtime (IEEE
  doubles, the collation of the locale, the operating system), not to the program, and are
  taken as parameters: the type \<open>'n\<close> stands for the numbers. What a theorem needs of them
  is stated as a hypothesis of that theorem.
\<close>

record 'n jsenv =
  parseFloat :: "jsstring \<Rightarrow> 'n"
  toFixed1 :: "'n \<Rightarrow> jsstring"
  isPositive :: "'n \<Rightarrow> bool"
  addNum :: "'n \<Rightarrow> 'n \<Rightarrow> 'n"
  zeroNum :: 'n
  localeCompare :: "jsstring \<Rightarrow> jsstring \<Rightarrow> int"
  pathJoin :: "jsstring \<Rightarrow> jsstring"

record 'n dayrec =
  date :: jsstring
  inTime :: jsstring
  outTime :: jsstring
  work :: 'n
  ot :: 'n
  note_text :: jsstring

definition rowPattern :: "node list" where
  \<comment> \<open>\<^verbatim>\<open>/^\|\s*(\d{4}-\d{2}-\d{2})\s*\|\s*(\S+)\s*\|\s*(\S+)\s*\|\s*([\d.]+)\s*\|\s*([\d.]+)[^|]*\|\s*(.*?)\s*\|$/\<close>\<close>
  "rowPattern =
     [Bol, Lit 0x7C, Star isSpace,
      Open, Rep 4 isDigit, Lit 0x2D, Rep 2 isDigit, Lit 0x2D, Rep 2 isDigit, Close,
      Star isSpace, Lit 0x7C, Star isSpace,
      Open, Plus nonSpace, Close, Star isSpace, Lit 0x7C, Star isSpace,
      Open, Plus nonSpace, Close, Star isSpace, Lit 0x7C, Star isSpace,
      Open, Plus digitOrDot, Close, Star isSpace, Lit 0x7C, Star isSpace,
      Open, Plus digitOrDot, Close, Star notBar, Lit 0x7C, Star isSpace,
      Open, LazyStar anyChar, Close, Star isSpace, Lit 0x7C, Eol]"

definition parseLine :: "'n jsenv \<Rightarrow> jsstring \<Rightarrow> 'n dayrec option" where
  "parseLine env line =
     (case jsMatch rowPattern line of
        Some [m1, m2, m3, m4, m5, m6] \<Rightarrow>
          Some \<lparr> date = m1, inTime = m2, outTime = m3,
                 work = parseFloat env m4, ot = parseFloat env m5, note_text = trim m6 \<rparr>
      | _ \<Rightarrow> None)"

text \<open>
  The \<^verbatim>\<open>Map\<close> of records is an association list in insertion order; \<^verbatim>\<open>records.set\<close> replaces
  the value of a key that is present where it stands and appends a new key, which is
  \<^const>\<open>AList.update\<close>.
\<close>

definition parseRecords :: "'n jsenv \<Rightarrow> jsstring list \<Rightarrow> (jsstring \<times> 'n dayrec) list" where
  "parseRecords env lines =
     foldl (\<lambda>records line.
              case parseLine env line of
                Some r \<Rightarrow> AList.update (date r) r records
              | None \<Rightarrow> records)
           [] lines"

text \<open>
  \<^verbatim>\<open>Array.prototype.sort\<close> with a comparator is a stable sort; it is modelled as the stable
  insertion sort.
\<close>

fun insertBy :: "('a \<Rightarrow> 'a \<Rightarrow> int) \<Rightarrow> 'a \<Rightarrow> 'a list \<Rightarrow> 'a list" where
  "insertBy cmp x [] = [x]"
| "insertBy cmp x (y # ys) = (if cmp x y \<le> 0 then x # y # ys else y # insertBy cmp x ys)"

definition sortBy :: "('a \<Rightarrow> 'a \<Rightarrow> int) \<Rightarrow> 'a list \<Rightarrow> 'a list" where
  "sortBy cmp xs = foldr (insertBy cmp) xs []"

definition getObsidianPath :: "'n jsenv \<Rightarrow> jsstring \<Rightarrow> jsstring" where
  "getObsidianPath env dateStr = pathJoin env (take 7 dateStr @ ascii ''.md'')"

definition escapeBars :: "jsstring \<Rightarrow> jsstring" where
  \<comment> \<open>\<^verbatim>\<open>n.replace(/\|/g, '\<close>U+FF0F\<^verbatim>\<open>')\<close>\<close>
  "escapeBars n = map (\<lambda>c. if c = 0x7C then 0xFF0F else c) n"

definition noteText :: "'n worktime \<Rightarrow> jsstring" where
  "noteText result =
     (if length (notes_list result) > 0
      then joinWith (ascii ''; '') (map escapeBars (notes_list result)) else [])"

definition existingRecords :: "'n jsenv \<Rightarrow> (jsstring \<rightharpoonup> jsstring) \<Rightarrow> jsstring \<Rightarrow> (jsstring \<times> 'n dayrec) list" where
  "existingRecords env files filePath =
     (case files filePath of
        None \<Rightarrow> []
      | Some content \<Rightarrow> parseRecords env (splitOn 0x0A content))"

definition newRecord :: "jsstring \<Rightarrow> jsstring \<Rightarrow> jsstring \<Rightarrow> 'n worktime \<Rightarrow> 'n dayrec" where
  "newRecord dateStr clockIn clockOut result =
     \<lparr> date = dateStr, inTime = clockIn, outTime = clockOut,
       work = workHours result, ot = overtimeHours result, note_text = noteText result \<rparr>"

definition sortedRecords :: "'n jsenv \<Rightarrow> (jsstring \<times> 'n dayrec) list \<Rightarrow> 'n dayrec list" where
  "sortedRecords env records =
     sortBy (\<lambda>a b. localeCompare env (date a) (date b)) (map snd records)"

definition renderRow :: "'n jsenv \<Rightarrow> 'n dayrec \<Rightarrow> jsstring" where
  "renderRow env r =
     (let otMark = (if isPositive env (ot r) then ascii '' '' @ [0xD83D, 0xDD25] else [])
      in ascii ''| '' @ date r @ ascii '' | '' @ inTime r @ ascii '' | '' @ outTime r
           @ ascii '' | '' @ toFixed1 env (work r) @ ascii '' | '' @ toFixed1 env (ot r) @ otMark
           @ ascii '' | '' @ note_text r @ ascii '' |'')"

definition summaryLine :: "'n jsenv \<Rightarrow> 'n dayrec list \<Rightarrow> jsstring" where
  "summaryLine env sortedRecs =
     (let totalWork = foldl (\<lambda>acc r. addNum env acc (work r)) (zeroNum env) sortedRecs;
          totalOT = foldl (\<lambda>acc r. addNum env acc (ot r)) (zeroNum env) sortedRecs;
          lateDays = length (filter (\<lambda>r. jsIncludes (note_text r) [0x8FDF, 0x5230]) sortedRecs)
      in ascii ''> **'' @ [0x51FA, 0x52E4] @ ascii '' '' @ showNat (length sortedRecs)
           @ ascii '' '' @ [0x5929] @ ascii '' '' @ [0xFF5C] @ ascii '' '' @ [0x5DE5, 0x65F6]
           @ ascii '' '' @ toFixed1 env totalWork
           @ ascii ''h '' @ [0xFF5C] @ ascii '' '' @ [0x52A0, 0x73ED] @ ascii '' ''
           @ toFixed1 env totalOT @ ascii ''h**''
           @ (if lateDays > 0
              then ascii '' '' @ [0xFF5C] @ ascii '' '' @ [0x8FDF, 0x5230] @ ascii '' ''
                     @ showNat lateDays @ ascii '' '' @ [0x6B21]
              else []))"

definition ledgerLines :: "'n jsenv \<Rightarrow> jsstring \<Rightarrow> 'n dayrec list \<Rightarrow> jsstring list" where
  "ledgerLines env month sortedRecs =
     [ascii ''# '' @ month @ ascii '' '' @ [0x52A0, 0x73ED, 0x8BB0, 0x5F55],
      [],
      ascii ''| '' @ [0x65E5, 0x671F] @ ascii '' | '' @ [0x4E0A, 0x73ED] @ ascii '' | ''
        @ [0x4E0B, 0x73ED] @ ascii '' | '' @ [0x5DE5, 0x65F6] @ ascii '' | '' @ [0x52A0, 0x73ED]
        @ ascii '' | '' @ [0x5907, 0x6CE8] @ ascii '' |'',
      ascii ''| :---: | :---: | :---: | :---: | :---: | :--- |'']
     @ map (renderRow env) sortedRecs
     @ [[], ascii ''---'', [], summaryLine env sortedRecs, []]"

text \<open>
  The file system is a map from paths to contents. \<open>writeToObsidian\<close> returns the file
  system after the write together with the path. Creating the directory does not change
  any content; a failing \<^verbatim>\<open>mkdirSync\<close> or \<^verbatim>\<open>writeFileSync\<close> ends the process and is outside
  the model.
\<close>

definition writeToObsidian ::
  "'n jsenv \<Rightarrow> (jsstring \<rightharpoonup> jsstring) \<Rightarrow> jsstring \<Rightarrow> jsstring \<Rightarrow> jsstring \<Rightarrow> 'n worktime
     \<Rightarrow> (jsstring \<rightharpoonup> jsstring) \<times> jsstring"
where
  "writeToObsidian env files dateStr clockIn clockOut result =
     (let filePath = getObsidianPath env dateStr;
          records = AList.update dateStr (newRecord dateStr clockIn clockOut result)
                      (existingRecords env files filePath);
          sortedRecs = sortedRecords env records;
          month = take 7 dateStr;
          lines = ledgerLines env month sortedRecs
      in (files(filePath \<mapsto> joinWith [0x0A] lines), filePath))"

section \<open>A runtime for concrete runs\<close>

text \<open>
  For concrete runs the parameters are instantiated with IEEE doubles. A finite double is
  written \<open>Fin q\<close> for a rational \<open>q\<close> of which it is the nearest double, so that
  \<open>toDouble q\<close> is its exact value: the rounding to a significand of 53 bits, ties to the
  even significand. Numbers so large or so small that a double overflows or is subnormal,
  and numbers from \<^verbatim>\<open>1e21\<close> on, which \<^verbatim>\<open>toFixed\<close> prints with an exponent, are not
  modelled. \<open>parseFloatQ\<close> reads the longest prefix that is a decimal literal, as
  \<^verbatim>\<open>parseFloat\<close> does on a string of digits and dots, and gives the double nearest to it;
  \<open>toFixed1N\<close> prints the decimal with one fractional digit nearest to the exact value of
  the double, the larger one on a tie, as \<^verbatim>\<open>toFixed(1)\<close> does; \<open>addN\<close> is the double nearest
  to the sum of the two exact values. The comparison of two strings is that of their code
  units, which is how every collation orders two dates of the shape \<^verbatim>\<open>YYYY-MM-DD\<close>.
\<close>

function bitLength :: "int \<Rightarrow> nat" where
  "bitLength a = (if a \<le> 0 then 0 else Suc (bitLength (a div 2)))"
  by pat_completeness auto
termination
  by (relation "measure nat") auto

declare bitLength.simps [simp del]

definition pow2 :: "int \<Rightarrow> rat" where
  "pow2 k = (if k \<ge> 0 then 2 ^ nat k else 1 / 2 ^ nat (- k))"

definition floorLog2 :: "rat \<Rightarrow> int" where
  \<comment> \<open>for \<open>a > 0\<close>, the \<open>e\<close> with \<open>2\<^sup>e \<le> a < 2\<^sup>e\<^sup>+\<^sup>1\<close>\<close>
  "floorLog2 a =
     (let k = int (bitLength (fst (quotient_of a))) - int (bitLength (snd (quotient_of a)))
      in if pow2 k \<le> a then k else k - 1)"

definition toDouble :: "rat \<Rightarrow> rat" where
  "toDouble q =
     (if q = 0 then 0
      else
        (let a = \<bar>q\<bar>;
             ulp = pow2 (floorLog2 a - 52);
             m = a / ulp;
             f = \<lfloor>m\<rfloor>;
             n = (if m - rat_of_int f < 1 / 2 then f
                  else if m - rat_of_int f > 1 / 2 then f + 1
                  else if even f then f else f + 1)
         in (if q < 0 then - 1 else 1) * rat_of_int n * ulp))"

datatype jsnum = NaN | Fin rat

definition parseFloatQ :: "jsstring \<Rightarrow> jsnum" where
  "parseFloatQ s =
     (let intPart = takeWhile isDigit s;
          rest = dropWhile isDigit s;
          fracPart = (case rest of [] \<Rightarrow> [] | c # cs \<Rightarrow> if c = 0x2E then takeWhile isDigit cs else [])
      in if intPart = [] \<and> fracPart = [] then NaN
         else Fin (rat_of_nat (digitsValue intPart)
                    + rat_of_nat (digitsValue fracPart) / 10 ^ length fracPart))"

definition toFixed1N :: "jsnum \<Rightarrow> jsstring" where
  "toFixed1N x = (case x of NaN \<Rightarrow> ascii ''NaN'' | Fin q \<Rightarrow> toFixed1Q (toDouble q))"

definition addN :: "jsnum \<Rightarrow> jsnum \<Rightarrow> jsnum" where
  "addN x y = (case (x, y) of (Fin a, Fin b) \<Rightarrow> Fin (toDouble a + toDouble b) | _ \<Rightarrow> NaN)"

definition isPositiveN :: "jsnum \<Rightarrow> bool" where
  "isPositiveN x = (case x of NaN \<Rightarrow> False | Fin q \<Rightarrow> toDouble q > 0)"

definition compareCodeUnits :: "jsstring \<Rightarrow> jsstring \<Rightarrow> int" where
  "compareCodeUnits a b = (if a < b then - 1 else if a = b then 0 else 1)"

definition exactEnv :: "jsnum jsenv" where
  "exactEnv =
     \<lparr> parseFloat = parseFloatQ, toFixed1 = toFixed1N, isPositive = isPositiveN,
       addNum = addN, zeroNum = Fin 0, localeCompare = compareCodeUnits,
       pathJoin = (\<lambda>name. ascii ''Overtime/'' @ name) \<rparr>"

section \<open>Auxiliary notions\<close>

text \<open>The columns of \<open>rowPattern\<close>, named for the proofs.\<close>

definition dateColumn :: "node list" where
  "dateColumn =
     [Lit 0x7C, Star isSpace,
      Open, Rep 4 isDigit, Lit 0x2D, Rep 2 isDigit, Lit 0x2D, Rep 2 isDigit, Close,
      Star isSpace, Lit 0x7C]"

definition textColumn :: "(nat \<Rightarrow> bool) \<Rightarrow> node list" where
  "textColumn P = [Star isSpace, Open, Plus P, Close, Star isSpace, Lit 0x7C]"

definition otColumn :: "node list" where
  "otColumn = [Star isSpace, Open, Plus digitOrDot, Close, Star notBar, Lit 0x7C]"

definition noteColumn :: "node list" where
  "noteColumn = [Star isSpace, Open, LazyStar anyChar, Close, Star isSpace, Lit 0x7C, Eol]"

text \<open>One step of the loop of \<open>parseRecords\<close>.\<close>

definition addLine :: "'n jsenv \<Rightarrow> (jsstring \<times> 'n dayrec) list \<Rightarrow> jsstring \<Rightarrow> (jsstring \<times> 'n dayrec) list" where
  "addLine env records line =
     (case parseLine env line of
        Some r \<Rightarrow> AList.update (date r) r records
      | None \<Rightarrow> records)"

text \<open>The sorted records from which a call of \<open>writeToObsidian\<close> writes the document.\<close>

definition writtenRows ::
  "'n jsenv \<Rightarrow> (jsstring \<rightharpoonup> jsstring) \<Rightarrow> jsstring \<Rightarrow> jsstring \<Rightarrow> jsstring \<Rightarrow> 'n worktime
     \<Rightarrow> 'n dayrec list"
where
  "writtenRows env files dateStr clockIn clockOut result =
     sortedRecords env
       (AList.update dateStr (newRecord dateStr clockIn clockOut result)
          (existingRecords env files (getObsidianPath env dateStr)))"

text \<open>
  What the theorems ask of the runtime. \<^verbatim>\<open>localeCompare\<close> orders two dates of the shape
  \<^verbatim>\<open>YYYY-MM-DD\<close> as their code units do: the digits collate in numerical order and the
  hyphens stand at the same places. \<^verbatim>\<open>toFixed(1)\<close> never prints a line feed.
\<close>

definition collatesDates :: "'n jsenv \<Rightarrow> bool" where
  "collatesDates env \<longleftrightarrow>
     (\<forall>a b. isDateShaped a \<longrightarrow> isDateShaped b \<longrightarrow> (localeCompare env a b \<le> 0 \<longleftrightarrow> a \<le> b))"

definition printsOnOneLine :: "'n jsenv \<Rightarrow> bool" where
  "printsOnOneLine env \<longleftrightarrow> (\<forall>x. 0x0A \<notin> set (toFixed1 env x))"

text \<open>
  The facts that hold of every record read from a line: the date has the shape
  \<^verbatim>\<open>YYYY-MM-DD\<close>, the two times are non-empty and free of white space, the note has no line
  terminator.
\<close>

definition wellShaped :: "'n dayrec \<Rightarrow> bool" where
  "wellShaped r \<longleftrightarrow>
     isDateShaped (date r) \<and>
     inTime r \<noteq> [] \<and> list_all nonSpace (inTime r) \<and>
     outTime r \<noteq> [] \<and> list_all nonSpace (outTime r) \<and>
     list_all anyChar (note_text r)"

text \<open>
  \<open>printsNumerals\<close>: \<^verbatim>\<open>toFixed(1)\<close> prints both hours of the record as digits and dots, as it
  does for every non-negative number below \<^verbatim>\<open>1e21\<close>. \<open>hoursStable\<close>: moreover, reading the
  printed hours gives the hours back, as it does for hours that were read from one-decimal
  numerals. \<open>reread\<close>: the record that is read from the rendered row of a record.
\<close>

definition printsNumerals :: "'n jsenv \<Rightarrow> 'n dayrec \<Rightarrow> bool" where
  "printsNumerals env r \<longleftrightarrow>
     toFixed1 env (work r) \<noteq> [] \<and> list_all digitOrDot (toFixed1 env (work r)) \<and>
     toFixed1 env (ot r) \<noteq> [] \<and> list_all digitOrDot (toFixed1 env (ot r))"

definition hoursStable :: "'n jsenv \<Rightarrow> 'n dayrec \<Rightarrow> bool" where
  "hoursStable env r \<longleftrightarrow>
     printsNumerals env r \<and>
     parseFloat env (toFixed1 env (work r)) = work r \<and>
     parseFloat env (toFixed1 env (ot r)) = ot r"

definition reread :: "'n jsenv \<Rightarrow> 'n dayrec \<Rightarrow> 'n dayrec" where
  "reread env r =
     \<lparr> date = date r, inTime = inTime r, outTime = outTime r,
       work = parseFloat env (toFixed1 env (work r)),
       ot = parseFloat env (toFixed1 env (ot r)),
       note_text = trim (note_text r) \<rparr>"

text \<open>
  The data rows of a document: its lines between the four heading lines (title, empty
  line, column heads, alignment line) and the five closing lines (empty line, rule, empty
  line, summary, and the empty line after the last line feed). \<open>rowDate\<close> is the text of
  the first column of a row: what follows the opening bar and blank, up to the next blank.
\<close>

definition documentRows :: "jsstring \<Rightarrow> jsstring list" where
  "documentRows doc = (let ls = splitOn 0x0A doc in take (length ls - 9) (drop 4 ls))"

definition rowDate :: "jsstring \<Rightarrow> jsstring" where
  "rowDate line = takeWhile (\<lambda>c. c \<noteq> 0x20) (drop 2 line)"

section \<open>Example documents\<close>

definition examplePath :: jsstring where
  "examplePath = ascii ''Overtime/2026-01.md''"

definition exampleUnsorted :: jsstring where
  \<comment> \<open>a hand-edited document: free text, rows out of order, two rows for one date\<close>
  "exampleUnsorted = joinWith [0x0A]
     [ascii ''# notes'',
      ascii ''| 2026-01-09 | 08:30 | 17:30 | 7.5 | 0.0 |  |'',
      ascii ''| 2026-01-05 | 08:30 | 17:30 | 7.5 | 0.0 |  |'',
      ascii ''| 2026-01-05 | 09:00 | 18:00 | 7.5 | 0.0 |  |'',
      ascii ''| 2026-1-7 | 08:30 | 17:30 | 7.5 | 0.0 |  |'']"

definition exampleResult :: "jsnum worktime" where
  \<comment> \<open>the result of \<^verbatim>\<open>calcWorktime('08:00', '19:37')\<close>\<close>
  "exampleResult =
     \<lparr> workHours = Fin (15 / 2), overtimeHours = Fin (3 / 2), isLate = False,
       notes_list = [], hint = [] \<rparr>"

definition exampleLateResult :: "jsnum worktime" where
  \<comment> \<open>the result of \<^verbatim>\<open>calcWorktime('09:20', '17:30')\<close>: 400 minutes worked\<close>
  "exampleLateResult =
     \<lparr> workHours = Fin (20 / 3), overtimeHours = Fin 0, isLate = True,
       notes_list = [lateNote (ascii ''09:20''), deficitNote 50], hint = [] \<rparr>"

definition exampleHandEdited :: jsstring where
  \<comment> \<open>a hand-edited row whose overtime is positive and prints as 0.0\<close>
  "exampleHandEdited = ascii ''| 2026-01-05 | 08:30 | 17:30 | 7.5 | 0.04 |  |''"


section \<open>Properties of the worktime calculation\<close>

lemma valid_time_toMin:
  "isValidTime t \<Longrightarrow> \<exists>v. toMin t = Some v \<and> 0 \<le> v \<and> v < 1440"
  by (auto simp: isValidTime_def split: option.splits)

lemma calcMinutes_workHours:
  "workHours (calcMinutes c i out) =
     rat_of_int (min (max ((out - effectiveStart i)
        - max 0 (min out LUNCH_END - max (effectiveStart i) LUNCH_START)) 0) REQUIRED_WORK) / 60"
  by (simp add: calcMinutes_def Let_def)

lemma calcMinutes_overtimeHours:
  "overtimeHours (calcMinutes c i out) =
     (if out > calcRequiredEnd (effectiveStart i) + OT_GAP \<and>
         rat_of_int (out - (calcRequiredEnd (effectiveStart i) + OT_GAP)) / 60 \<ge> OT_MIN_HOURS
      then rat_of_int \<lfloor>rat_of_int (out - (calcRequiredEnd (effectiveStart i) + OT_GAP)) / 60 * 2\<rfloor> / 2
      else 0)"
  by (simp add: calcMinutes_def Let_def)

lemma calcMinutes_notes:
  "notes_list (calcMinutes c i out) =
     (if effectiveStart i > FLEX_DEADLINE then [lateNote c] else [])
     @ (if (out - effectiveStart i)
             - max 0 (min out LUNCH_END - max (effectiveStart i) LUNCH_START) < REQUIRED_WORK
        then [deficitNote (REQUIRED_WORK - ((out - effectiveStart i)
                - max 0 (min out LUNCH_END - max (effectiveStart i) LUNCH_START)))]
        else [])"
  by (simp add: calcMinutes_def Let_def)

lemma calcRequiredEnd_after_start: "effStart < calcRequiredEnd effStart + OT_GAP"
  by (simp add: calcRequiredEnd_def LUNCH_START_def LUNCH_END_def LUNCH_DURATION_def
      REQUIRED_WORK_def OT_GAP_def)

lemma no_lunch_overlap_before_start:
  "out \<le> e \<Longrightarrow> max 0 (min out LUNCH_END - max e LUNCH_START) = 0"
  by (simp add: max_def min_def)

text \<open>
  Claim C1. For every pair of valid clock-in and clock-out times \<open>calcWorktime\<close> returns a
  result whose worked hours lie in the closed interval from 0 to 7.5 and whose overtime
  hours are a non-negative multiple of one half.
\<close>

theorem calcWorktime_hours_in_range:
  assumes "isValidTime clockIn" and "isValidTime clockOut"
  shows "\<exists>r. calcWorktime clockIn clockOut = Some r \<and>
             0 \<le> workHours r \<and> workHours r \<le> 15 / 2 \<and>
             (\<exists>k::nat. overtimeHours r = rat_of_nat k / 2)"
proof -
  obtain i where i: "toMin clockIn = Some i" using valid_time_toMin [OF assms(1)] by blast
  obtain out where out: "toMin clockOut = Some out" using valid_time_toMin [OF assms(2)] by blast
  have r: "calcWorktime clockIn clockOut = Some (calcMinutes clockIn i out)"
    by (simp add: calcWorktime_def i out)
  have w0: "0 \<le> workHours (calcMinutes clockIn i out)"
    by (simp add: calcMinutes_workHours REQUIRED_WORK_def)
  have w1: "workHours (calcMinutes clockIn i out) \<le> 15 / 2"
    by (simp add: calcMinutes_workHours REQUIRED_WORK_def)
  have ot: "\<exists>k::nat. overtimeHours (calcMinutes clockIn i out) = rat_of_nat k / 2"
  proof (cases "out > calcRequiredEnd (effectiveStart i) + OT_GAP \<and>
         rat_of_int (out - (calcRequiredEnd (effectiveStart i) + OT_GAP)) / 60 \<ge> OT_MIN_HOURS")
    case True
    define x where "x = rat_of_int (out - (calcRequiredEnd (effectiveStart i) + OT_GAP)) / 60 * 2"
    have "0 < out - (calcRequiredEnd (effectiveStart i) + OT_GAP)" using True by simp
    then have "0 \<le> x" unfolding x_def by simp
    then have "0 \<le> \<lfloor>x\<rfloor>" by simp
    then have "rat_of_int \<lfloor>x\<rfloor> = rat_of_nat (nat \<lfloor>x\<rfloor>)" by simp
    moreover have "overtimeHours (calcMinutes clockIn i out) = rat_of_int \<lfloor>x\<rfloor> / 2"
      unfolding calcMinutes_overtimeHours x_def using True by (rule if_P)
    ultimately show ?thesis by metis
  next
    case False
    have "overtimeHours (calcMinutes clockIn i out) = 0"
      unfolding calcMinutes_overtimeHours using False by (rule if_not_P)
    then have "overtimeHours (calcMinutes clockIn i out) = rat_of_nat 0 / 2" by simp
    then show ?thesis by blast
  qed
  show ?thesis using r w0 w1 ot by blast
qed

theorem calcWorktime_hours_in_range_witness:
  "isValidTime (ascii ''09:20'') \<and> isValidTime (ascii ''17:30'') \<and>
   (\<exists>r. calcWorktime (ascii ''09:20'') (ascii ''17:30'') = Some r \<and>
        0 \<le> workHours r \<and> workHours r \<le> 15 / 2 \<and>
        (\<exists>k::nat. overtimeHours r = rat_of_nat k / 2))"
proof -
  have a: "isValidTime (ascii ''09:20'')" by code_simp
  have b: "isValidTime (ascii ''17:30'')" by code_simp
  show ?thesis using a b calcWorktime_hours_in_range [OF a b] by blast
qed

text \<open>
  Claim C2, as amended. For clock-in 08:05 and clock-out 19:37 the effective start is
  08:30 (minute 510), the required end is 17:30 (minute 1050, which is 510 + 450 + 90), the
  overtime threshold is 18:00 (minute 1080), and \<open>calcWorktime\<close> returns 7.5 worked hours
  and 1.5 overtime hours: the 97 minutes after the threshold, floored to half hours.
\<close>

theorem calcWorktime_scenario_0805_1937:
  "toMin (ascii ''08:05'') = Some 485 \<and> toMin (ascii ''19:37'') = Some 1177 \<and>
   effectiveStart 485 = 510 \<and> toMin (ascii ''08:30'') = Some 510 \<and>
   calcRequiredEnd 510 = 1050 \<and> toMin (ascii ''17:30'') = Some 1050 \<and>
   1050 + OT_GAP = 1080 \<and> toMin (ascii ''18:00'') = Some 1080 \<and>
   map_option workHours (calcWorktime (ascii ''08:05'') (ascii ''19:37'')) = Some (15 / 2) \<and>
   map_option overtimeHours (calcWorktime (ascii ''08:05'') (ascii ''19:37'')) = Some (3 / 2)"
  by code_simp

text \<open>
  The claim as it was stated fails at its own input: the required end is not 18:30 (minute
  1110), and the overtime hours are not 0.5.
\<close>

theorem calcWorktime_scenario_0805_1937_counterexample:
  "calcRequiredEnd (effectiveStart 485) \<noteq> 1110 \<and>
   map_option overtimeHours (calcWorktime (ascii ''08:05'') (ascii ''19:37'')) \<noteq> Some (1 / 2)"
  by code_simp

text \<open>
  Claim C3. The required clock-out time has exactly three cases: an effective start before
  the start of lunch (11:30, minute 690) gives the start plus 450 plus 90 minutes; an
  effective start at or after the end of lunch (13:00, minute 780) gives the start plus 450
  minutes; an effective start inside the lunch window gives the end of lunch plus 450.
\<close>

theorem calcRequiredEnd_three_cases:
  "toMin (ascii ''11:30'') = Some LUNCH_START \<and> LUNCH_START = 690 \<and>
   toMin (ascii ''13:00'') = Some LUNCH_END \<and> LUNCH_END = 780 \<and>
   calcRequiredEnd effStart =
     (if effStart < 690 then effStart + 450 + 90
      else if effStart \<ge> 780 then effStart + 450
      else 780 + 450)"
proof -
  have a: "toMin (ascii ''11:30'') = Some LUNCH_START" by code_simp
  have b: "toMin (ascii ''13:00'') = Some LUNCH_END" by code_simp
  have c: "calcRequiredEnd effStart =
     (if effStart < 690 then effStart + 450 + 90
      else if effStart \<ge> 780 then effStart + 450
      else 780 + 450)"
    by (simp add: calcRequiredEnd_def LUNCH_START_def LUNCH_END_def LUNCH_DURATION_def
        REQUIRED_WORK_def)
  show ?thesis using a b c by (simp add: LUNCH_START_def LUNCH_END_def)
qed

text \<open>
  Claim C4. Whenever the clock-out time is not later than the effective start, in
  particular for clock-in 08:30 and clock-out 08:30, \<open>calcWorktime\<close> returns 0 worked hours
  and 0 overtime hours, so that no negative hours are returned.
\<close>

theorem calcWorktime_zero_when_out_not_after_start:
  assumes "isValidTime clockIn" and "isValidTime clockOut"
    and "toMin clockIn = Some inMin" and "toMin clockOut = Some outMin"
    and "outMin \<le> effectiveStart inMin"
  shows "\<exists>r. calcWorktime clockIn clockOut = Some r \<and> workHours r = 0 \<and> overtimeHours r = 0"
proof -
  have r: "calcWorktime clockIn clockOut = Some (calcMinutes clockIn inMin outMin)"
    by (simp add: calcWorktime_def assms(3,4))
  have w: "workHours (calcMinutes clockIn inMin outMin) = 0"
    using assms(5)
    by (simp add: calcMinutes_workHours no_lunch_overlap_before_start REQUIRED_WORK_def)
  have "\<not> outMin > calcRequiredEnd (effectiveStart inMin) + OT_GAP"
    using assms(5) calcRequiredEnd_after_start [of "effectiveStart inMin"] by simp
  then have o: "overtimeHours (calcMinutes clockIn inMin outMin) = 0"
    unfolding calcMinutes_overtimeHours by simp
  show ?thesis using r w o by blast
qed

theorem calcWorktime_zero_when_out_not_after_start_witness:
  "isValidTime (ascii ''08:30'') \<and> toMin (ascii ''08:30'') = Some 510 \<and>
   510 \<le> effectiveStart 510 \<and>
   (\<exists>r. calcWorktime (ascii ''08:30'') (ascii ''08:30'') = Some r \<and>
        workHours r = 0 \<and> overtimeHours r = 0)"
proof -
  have a: "isValidTime (ascii ''08:30'')" by code_simp
  have b: "toMin (ascii ''08:30'') = Some 510" by code_simp
  have c: "510 \<le> effectiveStart 510" by code_simp
  show ?thesis
    using a b c calcWorktime_zero_when_out_not_after_start [OF a a b b c] by blast
qed

section \<open>Properties of the matcher\<close>

lemma matchSeq_Lit:
  "matchSeq (Lit c # r) inp s st caps = Some res \<longleftrightarrow>
     (\<exists>t. s = c # t \<and> matchSeq r inp t st caps = Some res)"
  by (cases s) auto

lemma matchSeq_Rep:
  "matchSeq (Rep n P # r) inp s st caps = Some res \<longleftrightarrow>
     (\<exists>xs t. s = xs @ t \<and> length xs = n \<and> list_all P xs \<and>
             matchSeq r inp t st caps = Some res)"
proof (induction n arbitrary: s)
  case 0
  then show ?case by simp
next
  case (Suc n)
  show ?case
  proof (cases s)
    case Nil
    then show ?thesis by simp
  next
    case (Cons x t)
    show ?thesis
    proof
      assume "matchSeq (Rep (Suc n) P # r) inp s st caps = Some res"
      then have px: "P x" and m: "matchSeq (Rep n P # r) inp t st caps = Some res"
        using Cons by (auto split: if_splits)
      from m Suc.IH [of t] obtain xs u where
        "t = xs @ u" "length xs = n" "list_all P xs" "matchSeq r inp u st caps = Some res"
        by blast
      then have "s = (x # xs) @ u \<and> length (x # xs) = Suc n \<and> list_all P (x # xs) \<and>
                 matchSeq r inp u st caps = Some res"
        using Cons px by simp
      then show "\<exists>xs t. s = xs @ t \<and> length xs = Suc n \<and> list_all P xs \<and>
                   matchSeq r inp t st caps = Some res"
        by blast
    next
      assume "\<exists>xs t. s = xs @ t \<and> length xs = Suc n \<and> list_all P xs \<and>
                   matchSeq r inp t st caps = Some res"
      then obtain xs u where u: "s = xs @ u" "length xs = Suc n" "list_all P xs"
        "matchSeq r inp u st caps = Some res" by blast
      then obtain y ys where ys: "xs = y # ys" by (cases xs) auto
      then have "y = x" "t = ys @ u" "length ys = n" "list_all P ys" "P x"
        using u Cons by auto
      then have "matchSeq (Rep n P # r) inp t st caps = Some res"
        using Suc.IH [of t] u(4) by blast
      then show "matchSeq (Rep (Suc n) P # r) inp s st caps = Some res"
        using Cons \<open>P x\<close> by simp
    qed
  qed
qed

lemma matchSeq_Star_elim:
  "matchSeq (Star P # r) inp s st caps = Some res \<Longrightarrow>
     \<exists>xs t. s = xs @ t \<and> list_all P xs \<and> matchSeq r inp t st caps = Some res"
proof (induction s)
  case Nil
  then show ?case by simp
next
  case (Cons x s)
  show ?case
  proof (cases "P x \<and> matchSeq (Star P # r) inp s st caps \<noteq> None")
    case True
    then have "matchSeq (Star P # r) inp s st caps = Some res"
      using Cons.prems by auto
    then obtain xs t where "s = xs @ t" "list_all P xs" "matchSeq r inp t st caps = Some res"
      using Cons.IH by blast
    then have "x # s = (x # xs) @ t \<and> list_all P (x # xs) \<and>
               matchSeq r inp t st caps = Some res"
      using True by simp
    then show ?thesis by blast
  next
    case False
    then have "matchSeq r inp (x # s) st caps = Some res"
      using Cons.prems by (auto split: if_splits)
    then have "x # s = [] @ (x # s) \<and> list_all P [] \<and>
               matchSeq r inp (x # s) st caps = Some res"
      by simp
    then show ?thesis by blast
  qed
qed

lemma matchSeq_Plus_elim:
  "matchSeq (Plus P # r) inp s st caps = Some res \<Longrightarrow>
     \<exists>xs t. s = xs @ t \<and> xs \<noteq> [] \<and> list_all P xs \<and> matchSeq r inp t st caps = Some res"
proof (cases s)
  case Nil
  assume "matchSeq (Plus P # r) inp s st caps = Some res"
  then show ?thesis using Nil by simp
next
  case (Cons x u)
  assume a: "matchSeq (Plus P # r) inp s st caps = Some res"
  then have px: "P x" and m: "matchSeq (Star P # r) inp u st caps = Some res"
    using Cons by (auto split: if_splits)
  from matchSeq_Star_elim [OF m] obtain xs t where
    "u = xs @ t" "list_all P xs" "matchSeq r inp t st caps = Some res" by blast
  then have "s = (x # xs) @ t \<and> x # xs \<noteq> [] \<and> list_all P (x # xs) \<and>
             matchSeq r inp t st caps = Some res"
    using Cons px by simp
  then show ?thesis by blast
qed

lemma matchSeq_LazyStar_elim:
  "matchSeq (LazyStar P # r) inp s st caps = Some res \<Longrightarrow>
     \<exists>xs t. s = xs @ t \<and> list_all P xs \<and> matchSeq r inp t st caps = Some res"
proof (induction s)
  case Nil
  then have "matchSeq r inp [] st caps = Some res"
    by (auto split: option.splits)
  then show ?case by simp
next
  case (Cons x s)
  show ?case
  proof (cases "matchSeq r inp (x # s) st caps")
    case (Some a)
    then have "matchSeq r inp (x # s) st caps = Some res" using Cons.prems by simp
    then have "x # s = [] @ (x # s) \<and> list_all P [] \<and>
               matchSeq r inp (x # s) st caps = Some res"
      by simp
    then show ?thesis by blast
  next
    case None
    then have px: "P x" and m: "matchSeq (LazyStar P # r) inp s st caps = Some res"
      using Cons.prems by (auto split: if_splits)
    then obtain xs t where "s = xs @ t" "list_all P xs" "matchSeq r inp t st caps = Some res"
      using Cons.IH by blast
    then have "x # s = (x # xs) @ t \<and> list_all P (x # xs) \<and>
               matchSeq r inp t st caps = Some res"
      using px by simp
    then show ?thesis by blast
  qed
qed

text \<open>A greedy quantifier whose longest run is followed by a successful rest.\<close>

lemma matchSeq_Star_greedy:
  assumes "list_all P xs" and "t = [] \<or> \<not> P (hd t)"
    and "matchSeq r inp t st caps = Some res"
  shows "matchSeq (Star P # r) inp (xs @ t) st caps = Some res"
  using assms
proof (induction xs)
  case Nil
  then show ?case by (cases t) auto
next
  case (Cons x xs)
  then show ?case by simp
qed

lemma matchSeq_Plus_greedy:
  assumes "list_all P xs" and "xs \<noteq> []" and "t = [] \<or> \<not> P (hd t)"
    and "matchSeq r inp t st caps = Some res"
  shows "matchSeq (Plus P # r) inp (xs @ t) st caps = Some res"
proof -
  obtain y ys where ys: "xs = y # ys" using assms(2) by (cases xs) auto
  then have "list_all P ys" "P y" using assms(1) by auto
  then have "matchSeq (Star P # r) inp (ys @ t) st caps = Some res"
    using matchSeq_Star_greedy assms(3,4) by blast
  then show ?thesis using ys \<open>P y\<close> by simp
qed

text \<open>A lazy quantifier stops at the first position where the rest succeeds.\<close>

lemma matchSeq_LazyStar_first:
  assumes "list_all P xs"
    and "\<forall>k < length xs. matchSeq r inp (drop k xs @ t) st caps = None"
    and "matchSeq r inp t st caps = Some res"
  shows "matchSeq (LazyStar P # r) inp (xs @ t) st caps = Some res"
  using assms
proof (induction xs)
  case Nil
  then show ?case by (cases t) auto
next
  case (Cons x xs)
  have here: "matchSeq r inp ((x # xs) @ t) st caps = None"
    using Cons.prems(2) by force
  have "\<forall>k < length xs. matchSeq r inp (drop k xs @ t) st caps = None"
  proof (intro allI impI)
    fix k assume "k < length xs"
    then have "Suc k < length (x # xs)" by simp
    then have "matchSeq r inp (drop (Suc k) (x # xs) @ t) st caps = None"
      using Cons.prems(2) by blast
    then show "matchSeq r inp (drop k xs @ t) st caps = None" by simp
  qed
  then have "matchSeq (LazyStar P # r) inp (xs @ t) st caps = Some res"
    using Cons.IH Cons.prems(1,3) by simp
  then show ?case using here Cons.prems(1) by simp
qed

lemma matchSeq_Close_captured:
  "matchSeq (Close # r) inp s (xs @ s) caps = matchSeq r inp s (xs @ s) (caps @ [xs])"
  by simp

text \<open>A pattern that starts with \<^verbatim>\<open>^\<close> matches at index 0 or not at all.\<close>

lemma matchFrom_Bol_later:
  "length s < length inp \<Longrightarrow> matchFrom (Bol # r) inp s = None"
  by (induction s) auto

lemma jsMatch_Bol: "jsMatch (Bol # r) s = matchSeq r s s [] []"
proof (cases s)
  case Nil
  then show ?thesis by (simp add: jsMatch_def)
next
  case (Cons c cs)
  have "matchFrom (Bol # r) (c # cs) cs = None"
    by (rule matchFrom_Bol_later) simp
  then show ?thesis using Cons by (simp add: jsMatch_def split: option.splits)
qed

section \<open>The row pattern, column by column\<close>

lemma rowPattern_columns:
  "rowPattern =
     Bol # dateColumn @ textColumn nonSpace @ textColumn nonSpace @ textColumn digitOrDot
       @ otColumn @ noteColumn"
  by (simp add: rowPattern_def dateColumn_def textColumn_def otColumn_def noteColumn_def)

lemma matchSeq_Lit_elim:
  "matchSeq (Lit c # r) inp s st caps = Some res \<Longrightarrow>
     \<exists>t. s = c # t \<and> matchSeq r inp t st caps = Some res"
  by (simp only: matchSeq_Lit)

lemma matchSeq_Rep_elim:
  "matchSeq (Rep n P # r) inp s st caps = Some res \<Longrightarrow>
     \<exists>xs t. s = xs @ t \<and> length xs = n \<and> list_all P xs \<and>
            matchSeq r inp t st caps = Some res"
  by (simp only: matchSeq_Rep)

lemma matchSeq_Rep_intro:
  "length xs = n \<Longrightarrow> list_all P xs \<Longrightarrow> matchSeq r inp t st caps = Some res \<Longrightarrow>
     matchSeq (Rep n P # r) inp (xs @ t) st caps = Some res"
  unfolding matchSeq_Rep by blast

lemma matchSeq_Lit_intro:
  "matchSeq r inp t st caps = Some res \<Longrightarrow> matchSeq (Lit c # r) inp (c # t) st caps = Some res"
  by simp

lemma dateBody_elim:
  assumes "matchSeq (Rep 4 isDigit # Lit 0x2D # Rep 2 isDigit # Lit 0x2D # Rep 2 isDigit # r)
     inp s st caps = Some res"
  shows "\<exists>y m dd t. s = y @ 0x2D # m @ 0x2D # dd @ t \<and> length y = 4 \<and> length m = 2 \<and>
       length dd = 2 \<and> list_all isDigit y \<and> list_all isDigit m \<and> list_all isDigit dd \<and>
       matchSeq r inp t st caps = Some res"
proof -
  from matchSeq_Rep_elim [OF assms]
  obtain y t1 where 1: "s = y @ t1" "length y = 4" "list_all isDigit y"
    and m1: "matchSeq (Lit 0x2D # Rep 2 isDigit # Lit 0x2D # Rep 2 isDigit # r) inp t1 st caps
              = Some res"
    by blast
  from matchSeq_Lit_elim [OF m1]
  obtain t2 where 2: "t1 = 0x2D # t2"
    and m2: "matchSeq (Rep 2 isDigit # Lit 0x2D # Rep 2 isDigit # r) inp t2 st caps = Some res"
    by blast
  from matchSeq_Rep_elim [OF m2]
  obtain m t3 where 3: "t2 = m @ t3" "length m = 2" "list_all isDigit m"
    and m3: "matchSeq (Lit 0x2D # Rep 2 isDigit # r) inp t3 st caps = Some res"
    by blast
  from matchSeq_Lit_elim [OF m3]
  obtain t4 where 4: "t3 = 0x2D # t4"
    and m4: "matchSeq (Rep 2 isDigit # r) inp t4 st caps = Some res"
    by blast
  from matchSeq_Rep_elim [OF m4]
  obtain dd t where 5: "t4 = dd @ t" "length dd = 2" "list_all isDigit dd"
    and m5: "matchSeq r inp t st caps = Some res"
    by blast
  have "s = y @ 0x2D # m @ 0x2D # dd @ t" using 1 2 3 4 5 by simp
  then show ?thesis using 1 3 5 m5 by blast
qed

lemma dateBody_intro:
  assumes "length y = 4" "length m = 2" "length dd = 2"
    "list_all isDigit y" "list_all isDigit m" "list_all isDigit dd"
    "matchSeq r inp t st caps = Some res"
  shows "matchSeq (Rep 4 isDigit # Lit 0x2D # Rep 2 isDigit # Lit 0x2D # Rep 2 isDigit # r)
     inp (y @ 0x2D # m @ 0x2D # dd @ t) st caps = Some res"
proof -
  have 5: "matchSeq (Rep 2 isDigit # r) inp (dd @ t) st caps = Some res"
    by (rule matchSeq_Rep_intro [OF assms(3) assms(6) assms(7)])
  have 4: "matchSeq (Lit 0x2D # Rep 2 isDigit # r) inp (0x2D # dd @ t) st caps = Some res"
    by (rule matchSeq_Lit_intro [OF 5])
  have 3: "matchSeq (Rep 2 isDigit # Lit 0x2D # Rep 2 isDigit # r) inp (m @ 0x2D # dd @ t)
             st caps = Some res"
    by (rule matchSeq_Rep_intro [OF assms(2) assms(5) 4])
  have 2: "matchSeq (Lit 0x2D # Rep 2 isDigit # Lit 0x2D # Rep 2 isDigit # r) inp
             (0x2D # m @ 0x2D # dd @ t) st caps = Some res"
    by (rule matchSeq_Lit_intro [OF 3])
  show ?thesis
    by (rule matchSeq_Rep_intro [OF assms(1) assms(4) 2])
qed

lemma isDateShaped_iff:
  "isDateShaped d \<longleftrightarrow>
     (\<exists>y m dd. d = y @ 0x2D # m @ 0x2D # dd \<and> length y = 4 \<and> length m = 2 \<and> length dd = 2 \<and>
               list_all isDigit y \<and> list_all isDigit m \<and> list_all isDigit dd)"
  (is "?L \<longleftrightarrow> ?R")
proof
  assume ?L
  then obtain res where
    "matchSeq (Rep 4 isDigit # Lit 0x2D # Rep 2 isDigit # Lit 0x2D # Rep 2 isDigit # [Eol])
       d d [] [] = Some res"
    by (auto simp add: isDateShaped_def jsTest_def datePattern_def jsMatch_Bol
        simp del: matchSeq.simps)
  from dateBody_elim [OF this]
  obtain y m dd t where 1: "d = y @ 0x2D # m @ 0x2D # dd @ t" "length y = 4" "length m = 2"
    "length dd = 2" "list_all isDigit y" "list_all isDigit m" "list_all isDigit dd"
    and e: "matchSeq [Eol] d t [] [] = Some res"
    by blast
  have "t = []" using e by (simp split: if_splits)
  then show ?R using 1 by auto
next
  assume ?R
  then obtain y m dd where 1: "d = y @ 0x2D # m @ 0x2D # dd" "length y = 4" "length m = 2"
    "length dd = 2" "list_all isDigit y" "list_all isDigit m" "list_all isDigit dd"
    by blast
  have e: "matchSeq [Eol] d [] [] [] = Some []" by simp
  have "matchSeq (Rep 4 isDigit # Lit 0x2D # Rep 2 isDigit # Lit 0x2D # Rep 2 isDigit # [Eol])
          d (y @ 0x2D # m @ 0x2D # dd @ []) [] [] = Some []"
    by (rule dateBody_intro [OF 1(2-7) e])
  then show ?L
    using 1(1)
    by (simp add: isDateShaped_def jsTest_def datePattern_def jsMatch_Bol del: matchSeq.simps)
qed

lemma textColumn_elim:
  assumes "matchSeq (textColumn P @ r) inp s st caps = Some res"
  shows "\<exists>ws xs ws' t st'. s = ws @ xs @ ws' @ 0x7C # t \<and> list_all isSpace ws \<and> xs \<noteq> [] \<and>
           list_all P xs \<and> list_all isSpace ws' \<and>
           matchSeq r inp t st' (caps @ [xs]) = Some res"
proof -
  have m0: "matchSeq (Star isSpace # Open # Plus P # Close # Star isSpace # Lit 0x7C # r)
          inp s st caps = Some res"
    using assms by (simp add: textColumn_def del: matchSeq.simps)
  from matchSeq_Star_elim [OF m0]
  obtain ws t1 where 1: "s = ws @ t1" "list_all isSpace ws"
    and m1: "matchSeq (Open # Plus P # Close # Star isSpace # Lit 0x7C # r) inp t1 st caps
               = Some res"
    by blast
  have m1': "matchSeq (Plus P # Close # Star isSpace # Lit 0x7C # r) inp t1 t1 caps = Some res"
    using m1 by simp
  from matchSeq_Plus_elim [OF m1']
  obtain xs t2 where 2: "t1 = xs @ t2" "xs \<noteq> []" "list_all P xs"
    and m2: "matchSeq (Close # Star isSpace # Lit 0x7C # r) inp t2 t1 caps = Some res"
    by blast
  have m2': "matchSeq (Star isSpace # Lit 0x7C # r) inp t2 t1 (caps @ [xs]) = Some res"
    using m2 2(1) by (simp del: matchSeq.simps(4,7))
  from matchSeq_Star_elim [OF m2']
  obtain ws' t3 where 3: "t2 = ws' @ t3" "list_all isSpace ws'"
    and m3: "matchSeq (Lit 0x7C # r) inp t3 t1 (caps @ [xs]) = Some res"
    by blast
  from matchSeq_Lit_elim [OF m3]
  obtain t where 4: "t3 = 0x7C # t" and m4: "matchSeq r inp t t1 (caps @ [xs]) = Some res"
    by blast
  have "s = ws @ xs @ ws' @ 0x7C # t" using 1 2 3 4 by simp
  then show ?thesis using 1 2 3 m4 by blast
qed

lemma otColumn_elim:
  assumes "matchSeq (otColumn @ r) inp s st caps = Some res"
  shows "\<exists>ws xs junk t st'. s = ws @ xs @ junk @ 0x7C # t \<and> list_all isSpace ws \<and> xs \<noteq> [] \<and>
           list_all digitOrDot xs \<and> list_all notBar junk \<and>
           matchSeq r inp t st' (caps @ [xs]) = Some res"
proof -
  have m0: "matchSeq (Star isSpace # Open # Plus digitOrDot # Close # Star notBar # Lit 0x7C # r)
          inp s st caps = Some res"
    using assms by (simp add: otColumn_def del: matchSeq.simps)
  from matchSeq_Star_elim [OF m0]
  obtain ws t1 where 1: "s = ws @ t1" "list_all isSpace ws"
    and m1: "matchSeq (Open # Plus digitOrDot # Close # Star notBar # Lit 0x7C # r) inp t1 st
               caps = Some res"
    by blast
  have m1': "matchSeq (Plus digitOrDot # Close # Star notBar # Lit 0x7C # r) inp t1 t1 caps
               = Some res"
    using m1 by simp
  from matchSeq_Plus_elim [OF m1']
  obtain xs t2 where 2: "t1 = xs @ t2" "xs \<noteq> []" "list_all digitOrDot xs"
    and m2: "matchSeq (Close # Star notBar # Lit 0x7C # r) inp t2 t1 caps = Some res"
    by blast
  have m2': "matchSeq (Star notBar # Lit 0x7C # r) inp t2 t1 (caps @ [xs]) = Some res"
    using m2 2(1) by (simp del: matchSeq.simps(4,7))
  from matchSeq_Star_elim [OF m2']
  obtain junk t3 where 3: "t2 = junk @ t3" "list_all notBar junk"
    and m3: "matchSeq (Lit 0x7C # r) inp t3 t1 (caps @ [xs]) = Some res"
    by blast
  from matchSeq_Lit_elim [OF m3]
  obtain t where 4: "t3 = 0x7C # t" and m4: "matchSeq r inp t t1 (caps @ [xs]) = Some res"
    by blast
  have "s = ws @ xs @ junk @ 0x7C # t" using 1 2 3 4 by simp
  then show ?thesis using 1 2 3 m4 by blast
qed

lemma dateColumn_elim:
  assumes "matchSeq (dateColumn @ r) inp s st caps = Some res"
  shows "\<exists>ws d ws' t st'. s = 0x7C # ws @ d @ ws' @ 0x7C # t \<and> list_all isSpace ws \<and>
           isDateShaped d \<and> list_all isSpace ws' \<and>
           matchSeq r inp t st' (caps @ [d]) = Some res"
proof -
  have m: "matchSeq (Lit 0x7C # Star isSpace # Open # Rep 4 isDigit # Lit 0x2D # Rep 2 isDigit
          # Lit 0x2D # Rep 2 isDigit # Close # Star isSpace # Lit 0x7C # r)
          inp s st caps = Some res"
    using assms by (simp add: dateColumn_def del: matchSeq.simps)
  from matchSeq_Lit_elim [OF m]
  obtain t0 where 0: "s = 0x7C # t0"
    and m0: "matchSeq (Star isSpace # Open # Rep 4 isDigit # Lit 0x2D # Rep 2 isDigit
          # Lit 0x2D # Rep 2 isDigit # Close # Star isSpace # Lit 0x7C # r)
          inp t0 st caps = Some res"
    by blast
  from matchSeq_Star_elim [OF m0]
  obtain ws t1 where 1: "t0 = ws @ t1" "list_all isSpace ws"
    and m1: "matchSeq (Open # Rep 4 isDigit # Lit 0x2D # Rep 2 isDigit
          # Lit 0x2D # Rep 2 isDigit # Close # Star isSpace # Lit 0x7C # r)
          inp t1 st caps = Some res"
    by blast
  have m1': "matchSeq (Rep 4 isDigit # Lit 0x2D # Rep 2 isDigit
          # Lit 0x2D # Rep 2 isDigit # Close # Star isSpace # Lit 0x7C # r)
          inp t1 t1 caps = Some res"
    using m1 by (simp del: matchSeq.simps(4-7))
  from dateBody_elim [OF m1']
  obtain y m dd t2 where 2: "t1 = y @ 0x2D # m @ 0x2D # dd @ t2"
    "length y = 4" "length m = 2" "length dd = 2"
    "list_all isDigit y" "list_all isDigit m" "list_all isDigit dd"
    and m2: "matchSeq (Close # Star isSpace # Lit 0x7C # r) inp t2 t1 caps = Some res"
    by blast
  define d where "d = y @ 0x2D # m @ 0x2D # dd"
  have t1: "t1 = d @ t2" using 2(1) by (simp add: d_def)
  have shaped: "isDateShaped d" unfolding isDateShaped_iff d_def using 2 by blast
  have m2': "matchSeq (Star isSpace # Lit 0x7C # r) inp t2 t1 (caps @ [d]) = Some res"
    using m2 t1 by (simp del: matchSeq.simps(4,7))
  from matchSeq_Star_elim [OF m2']
  obtain ws' t3 where 3: "t2 = ws' @ t3" "list_all isSpace ws'"
    and m3: "matchSeq (Lit 0x7C # r) inp t3 t1 (caps @ [d]) = Some res"
    by blast
  from matchSeq_Lit_elim [OF m3]
  obtain t where 4: "t3 = 0x7C # t" and m4: "matchSeq r inp t t1 (caps @ [d]) = Some res"
    by blast
  have "s = 0x7C # ws @ d @ ws' @ 0x7C # t" using 0 1 t1 3 4 by simp
  then show ?thesis using 1 shaped 3 m4 by blast
qed

lemma spaces_bar_end_elim:
  assumes "matchSeq [Star isSpace, Lit 0x7C, Eol] inp s st caps = Some res"
  shows "\<exists>ws. s = ws @ [0x7C] \<and> list_all isSpace ws \<and> res = caps"
proof -
  from matchSeq_Star_elim [OF assms]
  obtain ws t where 1: "s = ws @ t" "list_all isSpace ws"
    and m1: "matchSeq [Lit 0x7C, Eol] inp t st caps = Some res"
    by blast
  from matchSeq_Lit_elim [OF m1]
  obtain u where 2: "t = 0x7C # u" and m2: "matchSeq [Eol] inp u st caps = Some res"
    by blast
  have "u = [] \<and> res = caps" using m2 by (auto split: if_splits)
  then show ?thesis using 1 2 by simp
qed

lemma noteColumn_elim:
  assumes "matchSeq noteColumn inp s st caps = Some res"
  shows "\<exists>ws n ws'. s = ws @ n @ ws' @ [0x7C] \<and> list_all isSpace ws \<and> list_all anyChar n \<and>
           list_all isSpace ws' \<and> res = caps @ [n]"
proof -
  have m0: "matchSeq (Star isSpace # Open # LazyStar anyChar # Close
              # [Star isSpace, Lit 0x7C, Eol]) inp s st caps = Some res"
    using assms by (simp add: noteColumn_def del: matchSeq.simps)
  from matchSeq_Star_elim [OF m0]
  obtain ws t1 where 1: "s = ws @ t1" "list_all isSpace ws"
    and m1: "matchSeq (Open # LazyStar anyChar # Close # [Star isSpace, Lit 0x7C, Eol]) inp t1
               st caps = Some res"
    by blast
  have m1': "matchSeq (LazyStar anyChar # Close # [Star isSpace, Lit 0x7C, Eol]) inp t1 t1 caps
               = Some res"
    using m1 by (simp del: matchSeq.simps(9))
  from matchSeq_LazyStar_elim [OF m1']
  obtain n t2 where 2: "t1 = n @ t2" "list_all anyChar n"
    and m2: "matchSeq (Close # [Star isSpace, Lit 0x7C, Eol]) inp t2 t1 caps = Some res"
    by blast
  have m2': "matchSeq [Star isSpace, Lit 0x7C, Eol] inp t2 t1 (caps @ [n]) = Some res"
    using m2 2(1) by (simp del: matchSeq.simps(4,7))
  from spaces_bar_end_elim [OF m2']
  obtain ws' where 3: "t2 = ws' @ [0x7C]" "list_all isSpace ws'" "res = caps @ [n]"
    by blast
  have "s = ws @ n @ ws' @ [0x7C]" using 1 2 3 by simp
  then show ?thesis using 1 2 3 by blast
qed

text \<open>What a match of the row pattern says about the line and the captures.\<close>

lemma rowPattern_elim:
  assumes "jsMatch rowPattern line = Some caps"
  shows "\<exists>ws d rest i out w x n.
           line = 0x7C # ws @ d @ rest \<and> list_all isSpace ws \<and>
           caps = [d, i, out, w, x, n] \<and> isDateShaped d \<and>
           i \<noteq> [] \<and> list_all nonSpace i \<and> out \<noteq> [] \<and> list_all nonSpace out \<and>
           w \<noteq> [] \<and> list_all digitOrDot w \<and> x \<noteq> [] \<and> list_all digitOrDot x \<and>
           list_all anyChar n"
proof -
  have m0: "matchSeq (dateColumn @ textColumn nonSpace @ textColumn nonSpace
          @ textColumn digitOrDot @ otColumn @ noteColumn) line line [] [] = Some caps"
    using assms by (simp add: rowPattern_columns jsMatch_Bol del: matchSeq.simps)
  from dateColumn_elim [OF m0]
  obtain ws d ws1 t1 st1 where 1: "line = 0x7C # ws @ d @ ws1 @ 0x7C # t1"
    "list_all isSpace ws" "isDateShaped d"
    and m1: "matchSeq (textColumn nonSpace @ textColumn nonSpace @ textColumn digitOrDot
       @ otColumn @ noteColumn) line t1 st1 ([] @ [d]) = Some caps"
    by blast
  from textColumn_elim [OF m1]
  obtain i t2 st2 where 2: "i \<noteq> []" "list_all nonSpace i"
    and m2: "matchSeq (textColumn nonSpace @ textColumn digitOrDot @ otColumn @ noteColumn)
       line t2 st2 (([] @ [d]) @ [i]) = Some caps"
    by blast
  from textColumn_elim [OF m2]
  obtain out t3 st3 where 3: "out \<noteq> []" "list_all nonSpace out"
    and m3: "matchSeq (textColumn digitOrDot @ otColumn @ noteColumn)
       line t3 st3 ((([] @ [d]) @ [i]) @ [out]) = Some caps"
    by blast
  from textColumn_elim [OF m3]
  obtain w t4 st4 where 4: "w \<noteq> []" "list_all digitOrDot w"
    and m4: "matchSeq (otColumn @ noteColumn)
       line t4 st4 (((([] @ [d]) @ [i]) @ [out]) @ [w]) = Some caps"
    by blast
  from otColumn_elim [OF m4]
  obtain x t5 st5 where 5: "x \<noteq> []" "list_all digitOrDot x"
    and m5: "matchSeq noteColumn line t5 st5 ((((([] @ [d]) @ [i]) @ [out]) @ [w]) @ [x])
              = Some caps"
    by blast
  from noteColumn_elim [OF m5]
  obtain n where 6: "list_all anyChar n"
    "caps = ((((([] @ [d]) @ [i]) @ [out]) @ [w]) @ [x]) @ [n]"
    by blast
  have "line = 0x7C # ws @ d @ (ws1 @ 0x7C # t1)" using 1 by simp
  moreover have "caps = [d, i, out, w, x, n]" using 6 by simp
  ultimately show ?thesis using 1 2 3 4 5 6 by blast
qed

section \<open>Reading lines\<close>

lemma set_trim_subset: "set (trim s) \<subseteq> set s"
proof -
  have "set (dropWhile isSpace (rev (dropWhile isSpace s))) \<subseteq> set (rev (dropWhile isSpace s))"
    by (auto dest: set_dropWhileD)
  also have "\<dots> \<subseteq> set s" by (auto dest: set_dropWhileD)
  finally show ?thesis by (simp add: trim_def)
qed

lemma list_all_trim: "list_all P s \<Longrightarrow> list_all P (trim s)"
  using set_trim_subset [of s] by (auto simp: list_all_iff)

lemma dropWhile_rev_dropWhile:
  "dropWhile P (rev (dropWhile P (rev (dropWhile P s)))) = rev (dropWhile P (rev (dropWhile P s)))"
proof (cases "dropWhile P (rev (dropWhile P s)) = []")
  case True
  show ?thesis unfolding True by simp
next
  case False
  define u where "u = dropWhile P s"
  have une: "u \<noteq> []" using False by (auto simp: u_def simp del: dropWhile_eq_Nil_conv)
  then have nP: "\<not> P (hd u)" unfolding u_def using hd_dropWhile by blast
  define v where "v = dropWhile P (rev u)"
  have vne: "v \<noteq> []" using False by (simp add: v_def u_def del: dropWhile_eq_Nil_conv)
  obtain w where w: "rev u = w @ v" unfolding v_def
    by (metis takeWhile_dropWhile_id)
  then have "u = rev v @ rev w" by (metis rev_append rev_rev_ident)
  then have "hd (rev v) = hd u" using vne by simp
  then have "\<not> P (hd (rev v))" using nP by simp
  moreover have "rev v \<noteq> []" using vne by simp
  ultimately have "dropWhile P (rev v) = rev v"
    by (cases "rev v") auto
  then show ?thesis by (simp add: v_def u_def)
qed

lemma trim_idem: "trim (trim s) = trim s"
  unfolding trim_def
  by (simp add: dropWhile_rev_dropWhile)

lemma parseLine_Some:
  assumes "parseLine env line = Some r"
  shows "\<exists>ws rest d i out w x n.
           line = 0x7C # ws @ d @ rest \<and> list_all isSpace ws \<and>
           jsMatch rowPattern line = Some [d, i, out, w, x, n] \<and>
           r = \<lparr> date = d, inTime = i, outTime = out, work = parseFloat env w,
                 ot = parseFloat env x, note_text = trim n \<rparr> \<and>
           isDateShaped d \<and> i \<noteq> [] \<and> list_all nonSpace i \<and> out \<noteq> [] \<and> list_all nonSpace out \<and>
           list_all anyChar n"
proof -
  obtain caps where c: "jsMatch rowPattern line = Some caps"
    using assms by (auto simp: parseLine_def split: option.splits)
  from rowPattern_elim [OF c]
  obtain ws d rest i out w x n where e:
    "line = 0x7C # ws @ d @ rest" "list_all isSpace ws" "caps = [d, i, out, w, x, n]"
    "isDateShaped d" "i \<noteq> []" "list_all nonSpace i" "out \<noteq> []" "list_all nonSpace out"
    "list_all anyChar n"
    by blast
  have "r = \<lparr> date = d, inTime = i, outTime = out, work = parseFloat env w,
                 ot = parseFloat env x, note_text = trim n \<rparr>"
    using assms c e(3) by (simp add: parseLine_def)
  then show ?thesis using c e by blast
qed

lemma parseLine_wellShaped:
  assumes "parseLine env line = Some r"
  shows "wellShaped r" and "trim (note_text r) = note_text r"
proof -
  from parseLine_Some [OF assms]
  obtain d i out w x n where e:
    "r = \<lparr> date = d, inTime = i, outTime = out, work = parseFloat env w,
           ot = parseFloat env x, note_text = trim n \<rparr>"
    "isDateShaped d" "i \<noteq> []" "list_all nonSpace i" "out \<noteq> []" "list_all nonSpace out"
    "list_all anyChar n"
    by blast
  show "wellShaped r" using e by (simp add: wellShaped_def list_all_trim)
  show "trim (note_text r) = note_text r" using e(1) by (simp add: trim_idem)
qed

lemma parseLine_None_iff: "parseLine env line = None \<longleftrightarrow> \<not> jsTest rowPattern line"
proof
  assume "parseLine env line = None"
  show "\<not> jsTest rowPattern line"
  proof
    assume "jsTest rowPattern line"
    then obtain caps where c: "jsMatch rowPattern line = Some caps"
      by (auto simp: jsTest_def)
    from rowPattern_elim [OF c] obtain d i out w x n where "caps = [d, i, out, w, x, n]"
      by blast
    then have "parseLine env line \<noteq> None" using c by (simp add: parseLine_def)
    then show False using \<open>parseLine env line = None\<close> by simp
  qed
next
  assume "\<not> jsTest rowPattern line"
  then show "parseLine env line = None" by (simp add: jsTest_def parseLine_def)
qed

section \<open>The record map\<close>

lemma parseRecords_foldl: "parseRecords env lines = foldl (addLine env) [] lines"
proof -
  have "addLine env = (\<lambda>records line. case parseLine env line of
          Some r \<Rightarrow> AList.update (date r) r records | None \<Rightarrow> records)"
    by (intro ext) (simp add: addLine_def)
  then show ?thesis by (simp add: parseRecords_def)
qed

lemma set_update_cases:
  "(k', v') \<in> set (AList.update k v al) \<Longrightarrow> (k', v') = (k, v) \<or> (k', v') \<in> set al"
  by (induction al) (auto split: if_splits)

lemma foldl_addLine_mem:
  "(k, r) \<in> set (foldl (addLine env) acc lines) \<Longrightarrow>
     (k, r) \<in> set acc \<or> (k = date r \<and> (\<exists>l \<in> set lines. parseLine env l = Some r))"
proof (induction lines arbitrary: acc)
  case Nil
  then show ?case by simp
next
  case (Cons l lines)
  from Cons.IH [of "addLine env acc l"] Cons.prems
  have "(k, r) \<in> set (addLine env acc l) \<or>
        (k = date r \<and> (\<exists>l \<in> set lines. parseLine env l = Some r))"
    by simp
  then show ?case
  proof
    assume a: "(k, r) \<in> set (addLine env acc l)"
    show ?thesis
    proof (cases "parseLine env l")
      case None
      then show ?thesis using a by (simp add: addLine_def)
    next
      case (Some r')
      then have "(k, r) = (date r', r') \<or> (k, r) \<in> set acc"
        using a set_update_cases by (fastforce simp: addLine_def)
      then show ?thesis using Some by auto
    qed
  next
    assume "k = date r \<and> (\<exists>l \<in> set lines. parseLine env l = Some r)"
    then show ?thesis by auto
  qed
qed

lemma foldl_addLine_distinct:
  "distinct (map fst acc) \<Longrightarrow> distinct (map fst (foldl (addLine env) acc lines))"
proof (induction lines arbitrary: acc)
  case Nil
  then show ?case by simp
next
  case (Cons l lines)
  have "distinct (map fst (addLine env acc l))"
    using Cons.prems by (simp add: addLine_def distinct_update split: option.splits)
  then show ?case using Cons.IH by simp
qed

lemma foldl_addLine_untouched:
  assumes "\<forall>l \<in> set lines. \<forall>r. parseLine env l = Some r \<longrightarrow> date r \<noteq> k"
  shows "map_of (foldl (addLine env) acc lines) k = map_of acc k"
  using assms
proof (induction lines arbitrary: acc)
  case Nil
  then show ?case by simp
next
  case (Cons l lines)
  have "map_of (addLine env acc l) k = map_of acc k"
    using Cons.prems by (auto simp: addLine_def update_conv' split: option.splits)
  then show ?case using Cons by simp
qed

lemma foldl_addLine_last:
  assumes "parseLine env line = Some r"
    and "\<forall>l \<in> set post. \<forall>r'. parseLine env l = Some r' \<longrightarrow> date r' \<noteq> date r"
  shows "map_of (foldl (addLine env) acc (pre @ line # post)) (date r) = Some r"
proof -
  have "map_of (foldl (addLine env) acc (pre @ line # post)) (date r)
        = map_of (addLine env (foldl (addLine env) acc pre) line) (date r)"
    using foldl_addLine_untouched [OF assms(2)] by simp
  also have "\<dots> = Some r" using assms(1) by (simp add: addLine_def update_conv')
  finally show ?thesis .
qed

lemma parseRecords_keyed:
  "(k, r) \<in> set (parseRecords env lines) \<Longrightarrow>
     k = date r \<and> (\<exists>l \<in> set lines. parseLine env l = Some r)"
  using foldl_addLine_mem [of k r env "[]" lines] by (simp add: parseRecords_foldl)

lemma parseRecords_distinct: "distinct (map fst (parseRecords env lines))"
  using foldl_addLine_distinct [of "[]" env lines] by (simp add: parseRecords_foldl)

lemma existingRecords_keyed:
  "(k, r) \<in> set (existingRecords env files path) \<Longrightarrow> k = date r \<and> wellShaped r"
  using parseRecords_keyed parseLine_wellShaped(1)
  by (fastforce simp: existingRecords_def split: option.splits)

lemma existingRecords_distinct: "distinct (map fst (existingRecords env files path))"
  by (simp add: existingRecords_def parseRecords_distinct split: option.splits)

section \<open>Sorting\<close>

lemma set_insertBy: "set (insertBy cmp x ys) = insert x (set ys)"
  by (induction ys) auto

lemma set_sortBy: "set (sortBy cmp xs) = set xs"
  by (induction xs) (auto simp: sortBy_def set_insertBy)

lemma insertBy_insort_key:
  "\<forall>y \<in> set ys. (cmp x y \<le> 0 \<longleftrightarrow> f x \<le> f y) \<Longrightarrow> insertBy cmp x ys = insort_key f x ys"
  by (induction ys) auto

lemma sortBy_sort_key:
  assumes "\<forall>x \<in> set xs. \<forall>y \<in> set xs. (cmp x y \<le> 0 \<longleftrightarrow> f x \<le> f y)"
  shows "sortBy cmp xs = sort_key f xs"
  using assms
proof (induction xs)
  case Nil
  then show ?case by (simp add: sortBy_def)
next
  case (Cons x xs)
  have ih: "sortBy cmp xs = sort_key f xs" using Cons by simp
  have "\<forall>y \<in> set (sort_key f xs). (cmp x y \<le> 0 \<longleftrightarrow> f x \<le> f y)"
    using Cons.prems by simp
  then have "insertBy cmp x (sort_key f xs) = insort_key f x (sort_key f xs)"
    by (rule insertBy_insort_key)
  then show ?case using ih by (simp add: sortBy_def)
qed

lemma distinct_map_sort_key: "distinct (map f xs) \<Longrightarrow> distinct (map f (sort_key f xs))"
  by (induction xs) (auto simp: distinct_insort_key)

text \<open>The records are keyed by their dates, the keys are distinct and shaped like dates.\<close>

lemma sortedRecords_sort_key:
  assumes "collatesDates env" and "\<forall>(k, r) \<in> set records. k = date r \<and> isDateShaped k"
  shows "sortedRecords env records = sort_key date (map snd records)"
  unfolding sortedRecords_def
proof (rule sortBy_sort_key, intro ballI)
  fix x y assume "x \<in> set (map snd records)" "y \<in> set (map snd records)"
  then have "isDateShaped (date x)" "isDateShaped (date y)"
    using assms(2) by fastforce+
  then show "localeCompare env (date x) (date y) \<le> 0 \<longleftrightarrow> date x \<le> date y"
    using assms(1) by (simp add: collatesDates_def)
qed

lemma keyed_map_date:
  "\<forall>(k, r) \<in> set records. k = date r \<Longrightarrow> map date (map snd records) = map fst records"
  by (induction records) auto

lemma sortedRecords_strictly_ascending:
  assumes "collatesDates env" and "\<forall>(k, r) \<in> set records. k = date r \<and> isDateShaped k"
    and "distinct (map fst records)"
  shows "sorted_wrt (<) (map date (sortedRecords env records))"
proof -
  have "map date (map snd records) = map fst records"
    using assms(2) by (intro keyed_map_date) auto
  then have "distinct (map date (map snd records))"
    using assms(3) by (simp only:)
  then have "distinct (map date (sort_key date (map snd records)))"
    by (rule distinct_map_sort_key)
  moreover have "sorted (map date (sort_key date (map snd records)))"
    by (rule sorted_sort_key)
  ultimately show ?thesis
    by (simp add: sortedRecords_sort_key [OF assms(1,2)] strict_sorted_iff)
qed

lemma set_sortedRecords: "set (sortedRecords env records) = snd ` set records"
  by (simp add: sortedRecords_def set_sortBy)

section \<open>The records of a call\<close>

lemma writeToObsidian_writtenRows:
  "writeToObsidian env files dateStr clockIn clockOut result =
     (files(getObsidianPath env dateStr \<mapsto>
        joinWith [0x0A] (ledgerLines env (take 7 dateStr)
          (writtenRows env files dateStr clockIn clockOut result))),
      getObsidianPath env dateStr)"
  by (simp add: writeToObsidian_def writtenRows_def Let_def)

lemma upserted_keyed:
  assumes "(k, r) \<in> set (AList.update dateStr (newRecord dateStr clockIn clockOut result)
                            (existingRecords env files path))"
  shows "k = date r"
    and "k \<noteq> dateStr \<Longrightarrow> (k, r) \<in> set (existingRecords env files path)"
    and "k = dateStr \<Longrightarrow> r = newRecord dateStr clockIn clockOut result"
proof -
  from set_update_cases [OF assms]
  have c: "(k, r) = (dateStr, newRecord dateStr clockIn clockOut result) \<or>
           (k, r) \<in> set (existingRecords env files path)" .
  then show "k = date r"
    using existingRecords_keyed by (fastforce simp: newRecord_def)
  show "k \<noteq> dateStr \<Longrightarrow> (k, r) \<in> set (existingRecords env files path)"
    using c by auto
  have "map_of (AList.update dateStr (newRecord dateStr clockIn clockOut result)
                 (existingRecords env files path)) dateStr
          = Some (newRecord dateStr clockIn clockOut result)"
    by (simp add: update_conv')
  moreover have "distinct (map fst (AList.update dateStr
       (newRecord dateStr clockIn clockOut result) (existingRecords env files path)))"
    by (simp add: distinct_update existingRecords_distinct)
  ultimately show "k = dateStr \<Longrightarrow> r = newRecord dateStr clockIn clockOut result"
    using assms by (metis map_of_is_SomeI option.inject)
qed

lemma upserted_new_mem:
  "(dateStr, newRecord dateStr clockIn clockOut result)
     \<in> set (AList.update dateStr (newRecord dateStr clockIn clockOut result) al)"
  by (rule map_of_SomeD) (simp add: update_conv')

lemma upserted_old_mem:
  "map_of al k = Some r \<Longrightarrow> k \<noteq> dateStr \<Longrightarrow> (k, r) \<in> set (AList.update dateStr v al)"
  by (rule map_of_SomeD) (simp add: update_conv')

section \<open>Lines and documents\<close>

lemma splitOn_no_sep: "sep \<notin> set x \<Longrightarrow> splitOn sep x = [x]"
  by (induction x) auto

lemma splitOn_sep: "sep \<notin> set x \<Longrightarrow> splitOn sep (x @ sep # rest) = x # splitOn sep rest"
  by (induction x) auto

lemma splitOn_joinWith:
  assumes "ls \<noteq> []" and "\<forall>l \<in> set ls. sep \<notin> set l"
  shows "splitOn sep (joinWith [sep] ls) = ls"
  using assms
proof (induction ls)
  case Nil
  then show ?case by simp
next
  case (Cons x xs)
  show ?case
  proof (cases xs)
    case Nil
    then show ?thesis using Cons.prems by (simp add: splitOn_no_sep)
  next
    case (Cons y ys)
    then have "splitOn sep (joinWith [sep] xs) = xs" using Cons.IH Cons.prems by simp
    then show ?thesis using Cons Cons.prems by (simp add: splitOn_sep)
  qed
qed

lemma splitOn_nonempty: "splitOn sep s \<noteq> []"
  by (induction s) (auto split: list.splits)

lemma splitOn_lines_no_sep: "l \<in> set (splitOn sep s) \<Longrightarrow> sep \<notin> set l"
proof (induction s arbitrary: l)
  case Nil
  then show ?case by simp
next
  case (Cons c cs)
  show ?case
  proof (cases "c = sep")
    case True
    then show ?thesis using Cons by auto
  next
    case False
    obtain p ps where ps: "splitOn sep cs = p # ps"
      using splitOn_nonempty [of sep cs] by (cases "splitOn sep cs") auto
    then have "l = c # p \<or> l \<in> set ps" using Cons.prems False by simp
    then show ?thesis using Cons.IH ps False by auto
  qed
qed

lemma empty_line_no_row: "\<not> jsTest rowPattern []"
  by (simp add: jsTest_def jsMatch_def rowPattern_def)

lemma foldl_addLine_filter:
  "foldl (addLine env) acc (filter (jsTest rowPattern) lines) = foldl (addLine env) acc lines"
proof (induction lines arbitrary: acc)
  case Nil
  then show ?case by simp
next
  case (Cons l lines)
  show ?case
  proof (cases "jsTest rowPattern l")
    case True
    then show ?thesis using Cons by simp
  next
    case False
    then have "addLine env acc l = acc"
      using parseLine_None_iff [of env l] by (simp add: addLine_def)
    then show ?thesis using False Cons by simp
  qed
qed

lemma parseRecords_filtered_document:
  "parseRecords env (splitOn 0x0A (joinWith [0x0A] (filter (jsTest rowPattern) (splitOn 0x0A content))))
     = parseRecords env (splitOn 0x0A content)"
proof (cases "filter (jsTest rowPattern) (splitOn 0x0A content) = []")
  case True
  have "parseLine env [] = None" using parseLine_None_iff empty_line_no_row by blast
  then have "parseRecords env (splitOn 0x0A (joinWith [0x0A] [])) = []"
    by (simp add: parseRecords_foldl addLine_def)
  moreover have "parseRecords env (splitOn 0x0A content) = []"
    using foldl_addLine_filter [of env "[]" "splitOn 0x0A content"] True
    by (simp add: parseRecords_foldl)
  ultimately show ?thesis using True by simp
next
  case False
  have "\<forall>l \<in> set (filter (jsTest rowPattern) (splitOn 0x0A content)). 0x0A \<notin> set l"
    using splitOn_lines_no_sep by fastforce
  then have "splitOn 0x0A (joinWith [0x0A] (filter (jsTest rowPattern) (splitOn 0x0A content)))
             = filter (jsTest rowPattern) (splitOn 0x0A content)"
    using False by (rule splitOn_joinWith [rotated])
  then show ?thesis by (simp add: parseRecords_foldl foldl_addLine_filter)
qed

lemma collatesDates_exactEnv: "collatesDates exactEnv"
  by (auto simp: collatesDates_def exactEnv_def compareCodeUnits_def)

section \<open>Properties of the ledger\<close>

text \<open>
  Claim C8. When the document of the month contains lines that do not match the row
  pattern, \<open>writeToObsidian\<close> still writes a document; the records it reads are those of the
  matching lines alone, and the result is the one it gives for the document without the
  other lines.
\<close>

theorem writeToObsidian_ignores_malformed_lines:
  assumes "files (getObsidianPath env dateStr) = Some content"
  shows "existingRecords env files (getObsidianPath env dateStr)
           = parseRecords env (filter (jsTest rowPattern) (splitOn 0x0A content)) \<and>
         writeToObsidian env
             (files(getObsidianPath env dateStr \<mapsto>
                joinWith [0x0A] (filter (jsTest rowPattern) (splitOn 0x0A content))))
             dateStr clockIn clockOut result
           = writeToObsidian env files dateStr clockIn clockOut result \<and>
         (\<exists>doc. fst (writeToObsidian env files dateStr clockIn clockOut result)
                   (getObsidianPath env dateStr) = Some doc)"
proof -
  define path where "path = getObsidianPath env dateStr"
  define kept where "kept = joinWith [0x0A] (filter (jsTest rowPattern) (splitOn 0x0A content))"
  have 1: "existingRecords env files path
             = parseRecords env (filter (jsTest rowPattern) (splitOn 0x0A content))"
    using assms
    by (simp add: existingRecords_def path_def parseRecords_foldl foldl_addLine_filter)
  have same: "existingRecords env (files(path \<mapsto> kept)) path = existingRecords env files path"
    using assms parseRecords_filtered_document [of env content]
    by (simp add: existingRecords_def path_def kept_def)
  have 2: "writeToObsidian env (files(path \<mapsto> kept)) dateStr clockIn clockOut result
             = writeToObsidian env files dateStr clockIn clockOut result"
    using same
    by (simp add: writeToObsidian_writtenRows writtenRows_def path_def [symmetric])
  have 3: "\<exists>doc. fst (writeToObsidian env files dateStr clockIn clockOut result) path = Some doc"
    by (simp add: writeToObsidian_writtenRows path_def)
  show ?thesis using 1 2 3 unfolding path_def kept_def by blast
qed

theorem writeToObsidian_ignores_malformed_lines_witness:
  "[examplePath \<mapsto> exampleUnsorted] (getObsidianPath exactEnv (ascii ''2026-01-07''))
     = Some exampleUnsorted \<and>
   filter (jsTest rowPattern) (splitOn 0x0A exampleUnsorted)
     = [ascii ''| 2026-01-09 | 08:30 | 17:30 | 7.5 | 0.0 |  |'',
        ascii ''| 2026-01-05 | 08:30 | 17:30 | 7.5 | 0.0 |  |'',
        ascii ''| 2026-01-05 | 09:00 | 18:00 | 7.5 | 0.0 |  |''] \<and>
   writeToObsidian exactEnv
       ([examplePath \<mapsto> exampleUnsorted](getObsidianPath exactEnv (ascii ''2026-01-07'') \<mapsto>
          joinWith [0x0A] (filter (jsTest rowPattern) (splitOn 0x0A exampleUnsorted))))
       (ascii ''2026-01-07'') (ascii ''08:00'') (ascii ''19:37'') exampleResult
     = writeToObsidian exactEnv [examplePath \<mapsto> exampleUnsorted]
         (ascii ''2026-01-07'') (ascii ''08:00'') (ascii ''19:37'') exampleResult"
proof -
  have a: "[examplePath \<mapsto> exampleUnsorted] (getObsidianPath exactEnv (ascii ''2026-01-07''))
             = Some exampleUnsorted"
    by code_simp
  have b: "filter (jsTest rowPattern) (splitOn 0x0A exampleUnsorted)
     = [ascii ''| 2026-01-09 | 08:30 | 17:30 | 7.5 | 0.0 |  |'',
        ascii ''| 2026-01-05 | 08:30 | 17:30 | 7.5 | 0.0 |  |'',
        ascii ''| 2026-01-05 | 09:00 | 18:00 | 7.5 | 0.0 |  |'']"
    by code_simp
  show ?thesis
    using a b
      writeToObsidian_ignores_malformed_lines [where files = "[examplePath \<mapsto> exampleUnsorted]"
        and env = exactEnv and dateStr = "ascii ''2026-01-07''" and content = exampleUnsorted
        and clockIn = "ascii ''08:00''" and clockOut = "ascii ''19:37''"
        and result = exampleResult]
    by blast
qed

section \<open>Reading a rendered row\<close>

lemma char_facts:
  "isSpace 0x20" "\<not> isSpace 0x7C" "notBar 0x20" "\<not> notBar 0x7C" "\<not> digitOrDot 0x20"
  "\<not> isSpace 0x2D" "\<not> isLineTerminator 0x20" "\<not> isLineTerminator 0x7C"
  by (simp_all add: isSpace_def isLineTerminator_def notBar_def digitOrDot_def isDigit_def)

lemma digit_not_space: "isDigit c \<Longrightarrow> \<not> isSpace c"
  by (auto simp: isDigit_def isSpace_def isLineTerminator_def)

lemma digitOrDot_not_space: "digitOrDot c \<Longrightarrow> \<not> isSpace c"
  by (auto simp: digitOrDot_def isDigit_def isSpace_def isLineTerminator_def)

lemma isDateShaped_facts:
  assumes "isDateShaped d"
  shows "length d = 10" and "d \<noteq> []" and "isDigit (hd d)"
    and "\<forall>c \<in> set d. isDigit c \<or> c = 0x2D"
proof -
  obtain y m dd where 1: "d = y @ 0x2D # m @ 0x2D # dd" "length y = 4" "length m = 2"
    "length dd = 2" "list_all isDigit y" "list_all isDigit m" "list_all isDigit dd"
    using assms isDateShaped_iff by blast
  show "length d = 10" using 1 by simp
  then show "d \<noteq> []" by auto
  obtain a y' where "y = a # y'" using 1(2) by (cases y) auto
  then show "isDigit (hd d)" using 1 by simp
  show "\<forall>c \<in> set d. isDigit c \<or> c = 0x2D" using 1 by (auto simp: list_all_iff)
qed

lemma textColumn_intro:
  assumes "xs \<noteq> []" and "list_all P xs" and "\<forall>c. P c \<longrightarrow> \<not> isSpace c"
    and "\<And>st'. matchSeq r inp t st' (caps @ [xs]) = Some res"
  shows "matchSeq (textColumn P @ r) inp (0x20 # xs @ 0x20 # 0x7C # t) st caps = Some res"
proof -
  have nsp: "\<not> isSpace (hd xs)" using assms(1,2,3) by (cases xs) auto
  have 5: "matchSeq (Lit 0x7C # r) inp (0x7C # t) (xs @ 0x20 # 0x7C # t) (caps @ [xs]) = Some res"
    using assms(4) by simp
  have 4: "matchSeq (Star isSpace # Lit 0x7C # r) inp ([0x20] @ 0x7C # t) (xs @ 0x20 # 0x7C # t)
             (caps @ [xs]) = Some res"
    by (rule matchSeq_Star_greedy [OF _ _ 5]) (simp_all add: char_facts)
  have 3: "matchSeq (Close # Star isSpace # Lit 0x7C # r) inp (0x20 # 0x7C # t)
             (xs @ 0x20 # 0x7C # t) caps = Some res"
    using 4 by (simp del: matchSeq.simps(4,7))
  have 2: "matchSeq (Plus P # Close # Star isSpace # Lit 0x7C # r) inp (xs @ 0x20 # 0x7C # t)
             (xs @ 0x20 # 0x7C # t) caps = Some res"
    by (rule matchSeq_Plus_greedy [OF assms(2) assms(1) _ 3])
       (use assms(3) char_facts in auto)
  have 1: "matchSeq (Open # Plus P # Close # Star isSpace # Lit 0x7C # r) inp
             (xs @ 0x20 # 0x7C # t) st caps = Some res"
    using 2 by (simp del: matchSeq.simps(4,7,8))
  have "matchSeq (Star isSpace # Open # Plus P # Close # Star isSpace # Lit 0x7C # r) inp
          ([0x20] @ xs @ 0x20 # 0x7C # t) st caps = Some res"
    by (rule matchSeq_Star_greedy [OF _ _ 1]) (use nsp assms(1) char_facts in auto)
  then show ?thesis by (simp add: textColumn_def del: matchSeq.simps)
qed

lemma otColumn_intro:
  assumes "xs \<noteq> []" and "list_all digitOrDot xs"
    and "junk \<noteq> []" and "\<not> digitOrDot (hd junk)" and "list_all notBar junk"
    and "\<And>st'. matchSeq r inp t st' (caps @ [xs]) = Some res"
  shows "matchSeq (otColumn @ r) inp (0x20 # xs @ junk @ 0x7C # t) st caps = Some res"
proof -
  have nsp: "\<not> isSpace (hd xs)"
    using assms(1,2) digitOrDot_not_space by (cases xs) auto
  have 5: "matchSeq (Lit 0x7C # r) inp (0x7C # t) (xs @ junk @ 0x7C # t) (caps @ [xs]) = Some res"
    using assms(6) by simp
  have 4: "matchSeq (Star notBar # Lit 0x7C # r) inp (junk @ 0x7C # t) (xs @ junk @ 0x7C # t)
             (caps @ [xs]) = Some res"
    by (rule matchSeq_Star_greedy [OF assms(5) _ 5]) (simp add: char_facts)
  have 3: "matchSeq (Close # Star notBar # Lit 0x7C # r) inp (junk @ 0x7C # t)
             (xs @ junk @ 0x7C # t) caps = Some res"
    using 4 by (simp del: matchSeq.simps(4,7))
  have 2: "matchSeq (Plus digitOrDot # Close # Star notBar # Lit 0x7C # r) inp
             (xs @ junk @ 0x7C # t) (xs @ junk @ 0x7C # t) caps = Some res"
    by (rule matchSeq_Plus_greedy [OF assms(2) assms(1) _ 3])
       (use assms(3,4) in \<open>cases junk; simp\<close>)
  have 1: "matchSeq (Open # Plus digitOrDot # Close # Star notBar # Lit 0x7C # r) inp
             (xs @ junk @ 0x7C # t) st caps = Some res"
    using 2 by (simp del: matchSeq.simps(4,7,8))
  have "matchSeq (Star isSpace # Open # Plus digitOrDot # Close # Star notBar # Lit 0x7C # r) inp
          ([0x20] @ xs @ junk @ 0x7C # t) st caps = Some res"
    by (rule matchSeq_Star_greedy [OF _ _ 1]) (use nsp assms(1) char_facts in auto)
  then show ?thesis by (simp add: otColumn_def del: matchSeq.simps)
qed

lemma dateColumn_intro:
  assumes "isDateShaped d"
    and "\<And>st'. matchSeq r inp t st' (caps @ [d]) = Some res"
  shows "matchSeq (dateColumn @ r) inp (0x7C # 0x20 # d @ 0x20 # 0x7C # t) st caps = Some res"
proof -
  obtain y m dd where d: "d = y @ 0x2D # m @ 0x2D # dd" "length y = 4" "length m = 2"
    "length dd = 2" "list_all isDigit y" "list_all isDigit m" "list_all isDigit dd"
    using assms(1) isDateShaped_iff by blast
  have nsp: "\<not> isSpace (hd d)"
    using isDateShaped_facts(3) [OF assms(1)] digit_not_space by blast
  have dne: "d \<noteq> []" using isDateShaped_facts(2) [OF assms(1)] .
  have 5: "matchSeq (Lit 0x7C # r) inp (0x7C # t) (d @ 0x20 # 0x7C # t) (caps @ [d]) = Some res"
    using assms(2) by simp
  have 4: "matchSeq (Star isSpace # Lit 0x7C # r) inp ([0x20] @ 0x7C # t) (d @ 0x20 # 0x7C # t)
             (caps @ [d]) = Some res"
    by (rule matchSeq_Star_greedy [OF _ _ 5]) (simp_all add: char_facts)
  have 3: "matchSeq (Close # Star isSpace # Lit 0x7C # r) inp (0x20 # 0x7C # t)
             (d @ 0x20 # 0x7C # t) caps = Some res"
    using 4 by (simp del: matchSeq.simps(4,7))
  have "matchSeq (Rep 4 isDigit # Lit 0x2D # Rep 2 isDigit # Lit 0x2D # Rep 2 isDigit
          # Close # Star isSpace # Lit 0x7C # r) inp (y @ 0x2D # m @ 0x2D # dd @ 0x20 # 0x7C # t)
          (d @ 0x20 # 0x7C # t) caps = Some res"
    by (rule dateBody_intro [OF d(2-7) 3])
  then have 2: "matchSeq (Rep 4 isDigit # Lit 0x2D # Rep 2 isDigit # Lit 0x2D # Rep 2 isDigit
          # Close # Star isSpace # Lit 0x7C # r) inp (d @ 0x20 # 0x7C # t)
          (d @ 0x20 # 0x7C # t) caps = Some res"
    by (simp add: d(1) del: matchSeq.simps)
  have 1: "matchSeq (Open # Rep 4 isDigit # Lit 0x2D # Rep 2 isDigit # Lit 0x2D # Rep 2 isDigit
          # Close # Star isSpace # Lit 0x7C # r) inp (d @ 0x20 # 0x7C # t) st caps = Some res"
    using 2 by (simp del: matchSeq.simps(4-7))
  have 0: "matchSeq (Star isSpace # Open # Rep 4 isDigit # Lit 0x2D # Rep 2 isDigit # Lit 0x2D
          # Rep 2 isDigit # Close # Star isSpace # Lit 0x7C # r) inp
          ([0x20] @ d @ 0x20 # 0x7C # t) st caps = Some res"
    by (rule matchSeq_Star_greedy [OF _ _ 1]) (use nsp dne char_facts in auto)
  then show ?thesis by (simp add: dateColumn_def del: matchSeq.simps(5-7))
qed

lemma trim_decomp:
  "\<exists>lead trail. n = lead @ trim n @ trail \<and> list_all isSpace lead \<and> list_all isSpace trail \<and>
      (trim n = [] \<or> (\<not> isSpace (hd (trim n)) \<and> \<not> isSpace (last (trim n)))) \<and>
      (trim n = [] \<longrightarrow> trail = [])"
proof -
  define lead where "lead = takeWhile isSpace n"
  define body where "body = dropWhile isSpace n"
  define trail where "trail = rev (takeWhile isSpace (rev body))"
  have n: "n = lead @ body" by (simp add: lead_def body_def)
  have t: "trim n = rev (dropWhile isSpace (rev body))" by (simp add: trim_def body_def)
  have "rev (takeWhile isSpace (rev body) @ dropWhile isSpace (rev body)) = rev (rev body)"
    by (simp only: takeWhile_dropWhile_id)
  then have "rev (dropWhile isSpace (rev body)) @ rev (takeWhile isSpace (rev body)) = body"
    by (simp only: rev_append rev_rev_ident)
  then have b: "body = trim n @ trail" by (simp only: t trail_def)
  have l1: "list_all isSpace lead"
    unfolding lead_def list_all_iff using set_takeWhileD by fast
  have l2: "list_all isSpace trail"
    unfolding trail_def list_all_iff using set_takeWhileD by fastforce
  have ends: "trim n = [] \<or> (\<not> isSpace (hd (trim n)) \<and> \<not> isSpace (last (trim n)))"
  proof (cases "trim n = []")
    case True
    then show ?thesis by simp
  next
    case False
    then have dne: "dropWhile isSpace (rev body) \<noteq> []" using t by simp
    then have "\<not> isSpace (hd (dropWhile isSpace (rev body)))" by (rule hd_dropWhile)
    then have last: "\<not> isSpace (last (trim n))"
      using dne by (simp add: t last_rev)
    have "body \<noteq> []" using b False by simp
    then have "\<not> isSpace (hd body)" unfolding body_def by (rule hd_dropWhile)
    moreover have "hd body = hd (trim n)" using b False by (metis hd_append2)
    ultimately show ?thesis using last by simp
  qed
  have empty: "trim n = [] \<longrightarrow> trail = []"
  proof
    assume e: "trim n = []"
    show "trail = []"
    proof (rule ccontr)
      assume "trail \<noteq> []"
      then have bne: "body \<noteq> []" using b by simp
      then have "\<not> isSpace (hd body)" unfolding body_def by (rule hd_dropWhile)
      moreover have "hd body \<in> set trail" using b e bne by simp
      ultimately show False using l2 by (simp add: list_all_iff)
    qed
  qed
  have "n = lead @ trim n @ trail" using n b by simp
  then show ?thesis using l1 l2 ends empty by blast
qed

lemma spaces_bar_end_intro:
  assumes "list_all isSpace ws"
  shows "matchSeq [Star isSpace, Lit 0x7C, Eol] inp (ws @ [0x7C]) st caps = Some caps"
proof -
  have "matchSeq [Lit 0x7C, Eol] inp [0x7C] st caps = Some caps" by simp
  then show ?thesis
    by (intro matchSeq_Star_greedy [OF assms]) (simp_all add: char_facts)
qed

lemma noteColumn_intro:
  assumes "list_all anyChar n"
  shows "matchSeq noteColumn inp (0x20 # n @ [0x20, 0x7C]) st caps = Some (caps @ [trim n])"
proof -
  obtain lead trail where d: "n = lead @ trim n @ trail" "list_all isSpace lead"
    "list_all isSpace trail"
    "trim n = [] \<or> (\<not> isSpace (hd (trim n)) \<and> \<not> isSpace (last (trim n)))"
    "trim n = [] \<longrightarrow> trail = []"
    using trim_decomp by blast
  define core where "core = trim n"
  define tl1 where "tl1 = (trail @ [0x20]) @ [0x7C]"
  have any: "list_all anyChar core"
    using assms list_all_trim by (simp add: core_def)
  have sp: "list_all isSpace (trail @ [0x20])" using d(3) by (simp add: char_facts)
  have fin: "\<And>st'. matchSeq [Star isSpace, Lit 0x7C, Eol] inp tl1 st' (caps @ [core])
               = Some (caps @ [core])"
    unfolding tl1_def by (rule spaces_bar_end_intro [OF sp])
  have close: "matchSeq (Close # [Star isSpace, Lit 0x7C, Eol]) inp tl1 (core @ tl1) caps
                 = Some (caps @ [core])"
    using fin by (simp del: matchSeq.simps(4,7))
  have none: "\<forall>k < length core.
      matchSeq (Close # [Star isSpace, Lit 0x7C, Eol]) inp (drop k core @ tl1) (core @ tl1) caps
        = None"
  proof (intro allI impI)
    fix k assume k: "k < length core"
    then have cne: "core \<noteq> []" by auto
    then have lastns: "\<not> isSpace (last core)" using d(4) by (simp add: core_def)
    have dk: "drop k core \<noteq> []" using k by simp
    show "matchSeq (Close # [Star isSpace, Lit 0x7C, Eol]) inp (drop k core @ tl1) (core @ tl1)
            caps = None"
    proof (rule ccontr)
      assume "matchSeq (Close # [Star isSpace, Lit 0x7C, Eol]) inp (drop k core @ tl1)
                (core @ tl1) caps \<noteq> None"
      then obtain res where
        "matchSeq (Close # [Star isSpace, Lit 0x7C, Eol]) inp (drop k core @ tl1) (core @ tl1)
           caps = Some res"
        by blast
      then obtain caps' where
        m: "matchSeq [Star isSpace, Lit 0x7C, Eol] inp (drop k core @ tl1) (core @ tl1) caps'
              = Some res"
        by (simp del: matchSeq.simps(4,7))
      from spaces_bar_end_elim [OF m]
      obtain ws where ws: "drop k core @ tl1 = ws @ [0x7C]" "list_all isSpace ws" by blast
      then have "ws = drop k core @ trail @ [0x20]" by (simp add: tl1_def)
      then have "list_all isSpace (drop k core)" using ws(2) by simp
      moreover have "last (drop k core) = last core" using k by simp
      ultimately have "isSpace (last core)"
        using dk by (metis last_in_set list_all_iff)
      then show False using lastns by simp
    qed
  qed
  have lazy: "matchSeq (LazyStar anyChar # Close # [Star isSpace, Lit 0x7C, Eol]) inp
                (core @ tl1) (core @ tl1) caps = Some (caps @ [core])"
    by (rule matchSeq_LazyStar_first [OF any none close])
  have opn: "matchSeq (Open # LazyStar anyChar # Close # [Star isSpace, Lit 0x7C, Eol]) inp
                (core @ tl1) st caps = Some (caps @ [core])"
    using lazy by (simp del: matchSeq.simps(4,7,9))
  show ?thesis
  proof (cases "core = []")
    case True
    then have "trail = []" using d(5) by (simp add: core_def)
    then have nall: "list_all isSpace (0x20 # n @ [0x20])"
      using d(1,2) True by (simp add: core_def char_facts)
    have "matchSeq (Open # LazyStar anyChar # Close # [Star isSpace, Lit 0x7C, Eol]) inp
            [0x7C] st caps = Some (caps @ [[]])"
      by (simp add: char_facts)
    then have "matchSeq (Star isSpace # Open # LazyStar anyChar # Close
                 # [Star isSpace, Lit 0x7C, Eol]) inp ((0x20 # n @ [0x20]) @ [0x7C]) st caps
               = Some (caps @ [[]])"
      by (intro matchSeq_Star_greedy [OF nall]) (simp_all add: char_facts)
    then show ?thesis using True by (simp add: noteColumn_def core_def del: matchSeq.simps)
  next
    case False
    then have stop: "core @ tl1 = [] \<or> \<not> isSpace (hd (core @ tl1))"
      using d(4) by (simp add: core_def)
    have "matchSeq (Star isSpace # Open # LazyStar anyChar # Close
            # [Star isSpace, Lit 0x7C, Eol]) inp ((0x20 # lead) @ core @ tl1) st caps
          = Some (caps @ [core])"
    proof (rule matchSeq_Star_greedy [where P = isSpace and xs = "0x20 # lead"])
      show "list_all isSpace (0x20 # lead)" using d(2) by (simp add: char_facts)
      show "core @ tl1 = [] \<or> \<not> isSpace (hd (core @ tl1))" by (rule stop)
      show "matchSeq (Open # LazyStar anyChar # Close # [Star isSpace, Lit 0x7C, Eol]) inp
              (core @ tl1) st caps = Some (caps @ [core])"
        by (rule opn)
    qed
    moreover have "(0x20 # lead) @ core @ tl1 = 0x20 # n @ [0x20, 0x7C]"
      using d(1) by (simp add: core_def tl1_def)
    ultimately show ?thesis by (simp add: noteColumn_def core_def del: matchSeq.simps)
  qed
qed

lemma renderRow_columns:
  "renderRow env r =
     0x7C # 0x20 # date r @ 0x20 # 0x7C #
     (0x20 # inTime r @ 0x20 # 0x7C #
     (0x20 # outTime r @ 0x20 # 0x7C #
     (0x20 # toFixed1 env (work r) @ 0x20 # 0x7C #
     (0x20 # toFixed1 env (ot r)
        @ ((if isPositive env (ot r) then [0x20, 0xD83D, 0xDD25] else []) @ [0x20]) @ 0x7C #
     (0x20 # note_text r @ [0x20, 0x7C])))))"
  by (simp add: renderRow_def ascii_def Let_def)

lemma parseLine_renderRow:
  assumes "wellShaped r" and "printsNumerals env r"
  shows "parseLine env (renderRow env r) = Some (reread env r)"
proof -
  define line where "line = renderRow env r"
  define junk where
    "junk = (if isPositive env (ot r) then [0x20, 0xD83D, 0xDD25] else []) @ [0x20::nat]"
  define t6 where "t6 = 0x20 # note_text r @ [0x20, 0x7C]"
  define t5 where "t5 = 0x20 # toFixed1 env (ot r) @ junk @ 0x7C # t6"
  define t4 where "t4 = 0x20 # toFixed1 env (work r) @ 0x20 # 0x7C # t5"
  define t3 where "t3 = 0x20 # outTime r @ 0x20 # 0x7C # t4"
  define t2 where "t2 = 0x20 # inTime r @ 0x20 # 0x7C # t3"
  have line: "line = 0x7C # 0x20 # date r @ 0x20 # 0x7C # t2"
    by (simp add: line_def renderRow_columns t2_def t3_def t4_def t5_def t6_def junk_def)
  have w: "isDateShaped (date r)" "inTime r \<noteq> []" "list_all nonSpace (inTime r)"
    "outTime r \<noteq> []" "list_all nonSpace (outTime r)" "list_all anyChar (note_text r)"
    using assms(1) by (simp_all add: wellShaped_def)
  have p: "toFixed1 env (work r) \<noteq> []" "list_all digitOrDot (toFixed1 env (work r))"
    "toFixed1 env (ot r) \<noteq> []" "list_all digitOrDot (toFixed1 env (ot r))"
    using assms(2) by (simp_all add: printsNumerals_def)
  have j: "junk \<noteq> []" "\<not> digitOrDot (hd junk)" "list_all notBar junk"
    by (simp_all add: junk_def char_facts notBar_def)
  define res where
    "res = [date r, inTime r, outTime r, toFixed1 env (work r), toFixed1 env (ot r),
            trim (note_text r)]"
  have m6: "\<And>st. matchSeq noteColumn line t6 st
              ((((([] @ [date r]) @ [inTime r]) @ [outTime r]) @ [toFixed1 env (work r)])
                 @ [toFixed1 env (ot r)]) = Some res"
    unfolding t6_def res_def using noteColumn_intro [OF w(6)] by simp
  have m5: "\<And>st. matchSeq (otColumn @ noteColumn) line t5 st
              (((([] @ [date r]) @ [inTime r]) @ [outTime r]) @ [toFixed1 env (work r)])
              = Some res"
    unfolding t5_def by (rule otColumn_intro [OF p(3) p(4) j m6])
  have m4: "\<And>st. matchSeq (textColumn digitOrDot @ otColumn @ noteColumn) line t4 st
              ((([] @ [date r]) @ [inTime r]) @ [outTime r]) = Some res"
    unfolding t4_def
    by (rule textColumn_intro [OF p(1) p(2) _ m5]) (simp add: digitOrDot_not_space)
  have m3: "\<And>st. matchSeq (textColumn nonSpace @ textColumn digitOrDot @ otColumn @ noteColumn)
              line t3 st (([] @ [date r]) @ [inTime r]) = Some res"
    unfolding t3_def
    by (rule textColumn_intro [OF w(4) w(5) _ m4]) (simp add: nonSpace_def)
  have m2: "\<And>st. matchSeq (textColumn nonSpace @ textColumn nonSpace @ textColumn digitOrDot
              @ otColumn @ noteColumn) line t2 st ([] @ [date r]) = Some res"
    unfolding t2_def
    by (rule textColumn_intro [OF w(2) w(3) _ m3]) (simp add: nonSpace_def)
  have m1: "matchSeq (dateColumn @ textColumn nonSpace @ textColumn nonSpace
              @ textColumn digitOrDot @ otColumn @ noteColumn) line line [] [] = Some res"
    using dateColumn_intro [OF w(1) m2, of "[]"] line by simp
  then have "jsMatch rowPattern line = Some res"
    by (simp add: rowPattern_columns jsMatch_Bol del: matchSeq.simps)
  then show ?thesis
    by (simp add: parseLine_def line_def [symmetric] res_def reread_def trim_idem)
qed

lemma renderRow_date:
  assumes "isDateShaped (date r)" and "parseLine env (renderRow env r) = Some q"
  shows "date q = date r"
proof -
  from parseLine_Some [OF assms(2)]
  obtain ws rest where e: "renderRow env r = 0x7C # ws @ date q @ rest" "list_all isSpace ws"
    "isDateShaped (date q)"
    by force
  obtain rest' where r: "renderRow env r = 0x7C # 0x20 # date r @ rest'"
    using renderRow_columns by blast
  have eq: "ws @ date q @ rest = 0x20 # date r @ rest'" using e(1) r by simp
  have dq: "date q \<noteq> []" "\<not> isSpace (hd (date q))" "length (date q) = 10"
    using isDateShaped_facts [OF e(3)] digit_not_space by auto
  have dr: "date r \<noteq> []" "\<not> isSpace (hd (date r))" "length (date r) = 10"
    using isDateShaped_facts [OF assms(1)] digit_not_space by auto
  have "ws = [0x20]"
  proof (cases ws)
    case Nil
    then have "hd (date q) = 0x20" using eq dq(1) by (cases "date q") auto
    then show ?thesis using dq(2) char_facts by simp
  next
    case (Cons c ws')
    then have ws': "c = 0x20" "ws' @ date q @ rest = date r @ rest'" using eq by auto
    have "ws' = []"
    proof (rule ccontr)
      assume "ws' \<noteq> []"
      then have "hd ws' = hd (date r)" using ws'(2) dr(1) by (cases ws'; cases "date r") auto
      moreover have "isSpace (hd ws')" using e(2) Cons \<open>ws' \<noteq> []\<close> by (cases ws') auto
      ultimately show False using dr(2) by simp
    qed
    then show ?thesis using Cons ws'(1) by simp
  qed
  then have "date q @ rest = date r @ rest'" using eq by simp
  then show ?thesis using dq(3) dr(3) by simp
qed

section \<open>Reading a rendered document\<close>

lemma addLine_skip: "parseLine env l = None \<Longrightarrow> addLine env acc l = acc"
  by (simp add: addLine_def)

lemma foldl_addLine_skip:
  "\<forall>l \<in> set ls. parseLine env l = None \<Longrightarrow> foldl (addLine env) acc ls = acc"
  by (induction ls arbitrary: acc) (simp_all add: addLine_skip)

lemma no_bar_no_row:
  assumes "line = [] \<or> hd line \<noteq> 0x7C"
  shows "parseLine env line = None"
proof (rule ccontr)
  assume "parseLine env line \<noteq> None"
  then obtain r where "parseLine env line = Some r" by blast
  from parseLine_Some [OF this] obtain t where "line = 0x7C # t" by blast
  then show False using assms by simp
qed

lemma header_lines_no_row:
  "\<not> jsTest rowPattern
       (ascii ''| '' @ [0x65E5, 0x671F] @ ascii '' | '' @ [0x4E0A, 0x73ED] @ ascii '' | ''
        @ [0x4E0B, 0x73ED] @ ascii '' | '' @ [0x5DE5, 0x65F6] @ ascii '' | '' @ [0x52A0, 0x73ED]
        @ ascii '' | '' @ [0x5907, 0x6CE8] @ ascii '' |'')"
  "\<not> jsTest rowPattern (ascii ''| :---: | :---: | :---: | :---: | :---: | :--- |'')"
  by code_simp+

lemma ledgerLines_parts:
  "\<exists>head foot. ledgerLines env month rows = head @ map (renderRow env) rows @ foot \<and>
      (\<forall>l \<in> set head. parseLine env l = None) \<and> (\<forall>l \<in> set foot. parseLine env l = None)"
proof -
  define head where "head =
     [ascii ''# '' @ month @ ascii '' '' @ [0x52A0, 0x73ED, 0x8BB0, 0x5F55],
      [],
      ascii ''| '' @ [0x65E5, 0x671F] @ ascii '' | '' @ [0x4E0A, 0x73ED] @ ascii '' | ''
        @ [0x4E0B, 0x73ED] @ ascii '' | '' @ [0x5DE5, 0x65F6] @ ascii '' | '' @ [0x52A0, 0x73ED]
        @ ascii '' | '' @ [0x5907, 0x6CE8] @ ascii '' |'',
      ascii ''| :---: | :---: | :---: | :---: | :---: | :--- |'']"
  define foot where "foot = [[], ascii ''---'', [], summaryLine env rows, []]"
  have 1: "ledgerLines env month rows = head @ map (renderRow env) rows @ foot"
    by (simp add: ledgerLines_def head_def foot_def)
  have t: "parseLine env (ascii ''# '' @ month @ ascii '' '' @ [0x52A0, 0x73ED, 0x8BB0, 0x5F55])
             = None"
    by (rule no_bar_no_row) (simp add: ascii_def)
  have e: "parseLine env [] = None" by (rule no_bar_no_row) simp
  have d: "parseLine env (ascii ''---'') = None" by (rule no_bar_no_row) (simp add: ascii_def)
  have s: "parseLine env (summaryLine env rows) = None"
    by (rule no_bar_no_row) (simp add: summaryLine_def Let_def ascii_def)
  have 2: "\<forall>l \<in> set head. parseLine env l = None"
    using t e header_lines_no_row by (simp add: head_def parseLine_None_iff)
  have 3: "\<forall>l \<in> set foot. parseLine env l = None"
    using e d s by (simp add: foot_def)
  show ?thesis using 1 2 3 by blast
qed

lemma showNat_digits: "c \<in> set (showNat n) \<Longrightarrow> isDigit c"
proof (induction n arbitrary: c rule: showNat.induct)
  case (1 n)
  show ?case
  proof (cases "n < 10")
    case True
    then have "c = 48 + n" using "1.prems" by (subst (asm) showNat.simps) simp
    then show ?thesis using True by (simp add: isDigit_def)
  next
    case False
    then have "c \<in> set (showNat (n div 10)) \<or> c = 48 + n mod 10"
      using "1.prems" by (subst (asm) showNat.simps) auto
    then show ?thesis
    proof
      assume "c \<in> set (showNat (n div 10))"
      then show ?thesis using "1.IH" False by simp
    next
      assume "c = 48 + n mod 10"
      moreover have "n mod 10 < 10" by simp
      ultimately show ?thesis by (simp add: isDigit_def)
    qed
  qed
qed

lemma showNat_one_line: "0x0A \<notin> set (showNat n)"
  using showNat_digits [of "0x0A" n] by (auto simp: isDigit_def)

lemma summaryLine_one_line: "printsOnOneLine env \<Longrightarrow> 0x0A \<notin> set (summaryLine env rows)"
  by (simp add: summaryLine_def Let_def ascii_def printsOnOneLine_def showNat_one_line)

lemma renderRow_one_line:
  assumes "printsOnOneLine env" and "0x0A \<notin> set (date r)" and "0x0A \<notin> set (inTime r)"
    and "0x0A \<notin> set (outTime r)" and "0x0A \<notin> set (note_text r)"
  shows "0x0A \<notin> set (renderRow env r)"
  using assms by (simp add: renderRow_columns printsOnOneLine_def)

lemma isDateShaped_one_line: "isDateShaped d \<Longrightarrow> 0x0A \<notin> set d"
  using isDateShaped_facts(4) [of d] by (auto simp: isDigit_def)

lemma wellShaped_one_line:
  assumes "printsOnOneLine env" and "wellShaped r"
  shows "0x0A \<notin> set (renderRow env r)"
proof (rule renderRow_one_line [OF assms(1)])
  show "0x0A \<notin> set (date r)" using assms(2) isDateShaped_one_line by (simp add: wellShaped_def)
  show "0x0A \<notin> set (inTime r)"
    using assms(2)
    by (auto simp: wellShaped_def list_all_iff nonSpace_def isSpace_def isLineTerminator_def)
  show "0x0A \<notin> set (outTime r)"
    using assms(2)
    by (auto simp: wellShaped_def list_all_iff nonSpace_def isSpace_def isLineTerminator_def)
  show "0x0A \<notin> set (note_text r)"
    using assms(2) by (auto simp: wellShaped_def list_all_iff anyChar_def isLineTerminator_def)
qed

lemma splitOn_joinWith_ledgerLines:
  assumes "printsOnOneLine env" and "0x0A \<notin> set month"
    and "\<forall>r \<in> set rows. 0x0A \<notin> set (renderRow env r)"
  shows "splitOn 0x0A (joinWith [0x0A] (ledgerLines env month rows)) = ledgerLines env month rows"
proof (rule splitOn_joinWith)
  show "ledgerLines env month rows \<noteq> []" by (simp add: ledgerLines_def)
  show "\<forall>l \<in> set (ledgerLines env month rows). 0x0A \<notin> set l"
    using assms summaryLine_one_line [OF assms(1), of rows]
    by (auto simp: ledgerLines_def ascii_def)
qed

lemma update_append_new: "k \<notin> fst ` set al \<Longrightarrow> AList.update k v al = al @ [(k, v)]"
  by (induction al) auto

lemma foldl_addLine_rendered:
  assumes "\<forall>r \<in> set rs. parseLine env (renderRow env r) = Some (f r) \<and> date (f r) = date r"
    and "distinct (map date rs)" and "\<forall>r \<in> set rs. date r \<notin> fst ` set acc"
  shows "foldl (addLine env) acc (map (renderRow env) rs) = acc @ map (\<lambda>r. (date r, f r)) rs"
  using assms
proof (induction rs arbitrary: acc)
  case Nil
  then show ?case by simp
next
  case (Cons r rs)
  have step: "addLine env acc (renderRow env r) = acc @ [(date r, f r)]"
    using Cons.prems(1,3) by (simp add: addLine_def update_append_new)
  have "\<forall>r' \<in> set rs. date r' \<notin> fst ` set (acc @ [(date r, f r)])"
  proof
    fix r' assume m: "r' \<in> set rs"
    then have "date r' \<in> date ` set rs" by simp
    then have "date r' \<noteq> date r" using Cons.prems(2) by auto
    moreover have "date r' \<notin> fst ` set acc" using Cons.prems(3) m by simp
    ultimately show "date r' \<notin> fst ` set (acc @ [(date r, f r)])" by auto
  qed
  then have "foldl (addLine env) (acc @ [(date r, f r)]) (map (renderRow env) rs)
               = (acc @ [(date r, f r)]) @ map (\<lambda>r. (date r, f r)) rs"
    using Cons.IH Cons.prems(1,2) by simp
  then show ?case using step by simp
qed

lemma printsOnOneLine_exactEnv: "printsOnOneLine exactEnv"
proof -
  have q: "0x0A \<notin> set (toFixed1Q x)" for x
    by (simp add: toFixed1Q_def Let_def showNat_one_line)
  have "0x0A \<notin> set (toFixed1N x)" for x
    by (cases x) (simp_all add: toFixed1N_def ascii_def q)
  then show ?thesis by (simp add: printsOnOneLine_def exactEnv_def)
qed

text \<open>
  Claim C7, as amended. Take records with distinct dates of the shape \<^verbatim>\<open>YYYY-MM-DD\<close>,
  times that are non-empty and free of white space, hours that \<^verbatim>\<open>toFixed(1)\<close> prints as
  digits and dots, and notes without a line terminator. Rendering the document from them and
  reading it back gives, in the same order, one record for each: with the same date,
  clock-in and clock-out, with the note trimmed, and with the hours that \<^verbatim>\<open>parseFloat\<close>
  reads from their print with one decimal, which are not the hours themselves unless
  these have one decimal.
\<close>

theorem render_then_parse_roundtrip:
  assumes "printsOnOneLine env" and "0x0A \<notin> set month"
    and "list_all (\<lambda>r. wellShaped r \<and> printsNumerals env r) rs"
    and "distinct (map date rs)"
  shows "parseRecords env (splitOn 0x0A (joinWith [0x0A] (ledgerLines env month rs)))
           = map (\<lambda>r. (date r,
                       \<lparr> date = date r, inTime = inTime r, outTime = outTime r,
                         work = parseFloat env (toFixed1 env (work r)),
                         ot = parseFloat env (toFixed1 env (ot r)),
                         note_text = trim (note_text r) \<rparr>)) rs"
proof -
  have shaped: "\<forall>r \<in> set rs. wellShaped r \<and> printsNumerals env r"
    using assms(3) by (simp add: list_all_iff)
  then have "\<forall>r \<in> set rs. 0x0A \<notin> set (renderRow env r)"
    using wellShaped_one_line [OF assms(1)] by blast
  then have lines: "splitOn 0x0A (joinWith [0x0A] (ledgerLines env month rs))
                      = ledgerLines env month rs"
    by (rule splitOn_joinWith_ledgerLines [OF assms(1,2)])
  obtain head foot where parts: "ledgerLines env month rs = head @ map (renderRow env) rs @ foot"
    "\<forall>l \<in> set head. parseLine env l = None" "\<forall>l \<in> set foot. parseLine env l = None"
    using ledgerLines_parts by blast
  have rows: "\<forall>r \<in> set rs. parseLine env (renderRow env r) = Some (reread env r) \<and>
                 date (reread env r) = date r"
    using shaped parseLine_renderRow by (auto simp: reread_def)
  have "foldl (addLine env) [] (ledgerLines env month rs)
          = foldl (addLine env) [] (map (renderRow env) rs)"
    by (simp add: parts foldl_addLine_skip)
  also have "\<dots> = [] @ map (\<lambda>r. (date r, reread env r)) rs"
    by (rule foldl_addLine_rendered [OF rows assms(4)]) simp
  finally show ?thesis
    by (simp add: lines parseRecords_foldl reread_def)
qed

theorem render_then_parse_roundtrip_witness:
  "printsOnOneLine exactEnv \<and> 0x0A \<notin> set (ascii ''2026-01'') \<and>
   list_all (\<lambda>r. wellShaped r \<and> printsNumerals exactEnv r)
     [newRecord (ascii ''2026-01-05'') (ascii ''09:20'') (ascii ''17:30'') exampleLateResult,
      newRecord (ascii ''2026-01-07'') (ascii ''08:00'') (ascii ''19:37'') exampleResult] \<and>
   distinct (map date
     [newRecord (ascii ''2026-01-05'') (ascii ''09:20'') (ascii ''17:30'') exampleLateResult,
      newRecord (ascii ''2026-01-07'') (ascii ''08:00'') (ascii ''19:37'') exampleResult]) \<and>
   map (\<lambda>(k, r). (k, inTime r, outTime r, work r, ot r))
     (parseRecords exactEnv (splitOn 0x0A (joinWith [0x0A] (ledgerLines exactEnv (ascii ''2026-01'')
       [newRecord (ascii ''2026-01-05'') (ascii ''09:20'') (ascii ''17:30'') exampleLateResult,
        newRecord (ascii ''2026-01-07'') (ascii ''08:00'') (ascii ''19:37'') exampleResult]))))
     = [(ascii ''2026-01-05'', ascii ''09:20'', ascii ''17:30'', Fin (67 / 10), Fin 0),
        (ascii ''2026-01-07'', ascii ''08:00'', ascii ''19:37'', Fin (15 / 2), Fin (3 / 2))]"
proof -
  have b: "0x0A \<notin> set (ascii ''2026-01'')" by code_simp
  have c: "list_all (\<lambda>r. wellShaped r \<and> printsNumerals exactEnv r)
     [newRecord (ascii ''2026-01-05'') (ascii ''09:20'') (ascii ''17:30'') exampleLateResult,
      newRecord (ascii ''2026-01-07'') (ascii ''08:00'') (ascii ''19:37'') exampleResult]"
    by code_simp
  have d: "distinct (map date
     [newRecord (ascii ''2026-01-05'') (ascii ''09:20'') (ascii ''17:30'') exampleLateResult,
      newRecord (ascii ''2026-01-07'') (ascii ''08:00'') (ascii ''19:37'') exampleResult])"
    by code_simp
  have e: "map (\<lambda>r. (date r, inTime r, outTime r,
                     parseFloat exactEnv (toFixed1 exactEnv (work r)),
                     parseFloat exactEnv (toFixed1 exactEnv (ot r))))
     [newRecord (ascii ''2026-01-05'') (ascii ''09:20'') (ascii ''17:30'') exampleLateResult,
      newRecord (ascii ''2026-01-07'') (ascii ''08:00'') (ascii ''19:37'') exampleResult]
     = [(ascii ''2026-01-05'', ascii ''09:20'', ascii ''17:30'', Fin (67 / 10), Fin 0),
        (ascii ''2026-01-07'', ascii ''08:00'', ascii ''19:37'', Fin (15 / 2), Fin (3 / 2))]"
    by code_simp
  show ?thesis
    using printsOnOneLine_exactEnv b c d e
      render_then_parse_roundtrip [OF printsOnOneLine_exactEnv b c d]
    by (simp add: case_prod_unfold comp_def)
qed

text \<open>
  The claim as it was stated fails for the day of the scenario 09:20 to 17:30: its 400
  worked minutes are 20/3 hours, the row prints 6.7, and the record read back has 6.7
  worked hours.
\<close>

theorem render_then_parse_roundtrip_counterexample:
  "calcWorktime (ascii ''09:20'') (ascii ''17:30'')
     = Some \<lparr> workHours = 20 / 3, overtimeHours = 0, isLate = True,
              notes_list = [lateNote (ascii ''09:20''), deficitNote 50], hint = [] \<rparr> \<and>
   map (work \<circ> snd)
     (parseRecords exactEnv (splitOn 0x0A (joinWith [0x0A] (ledgerLines exactEnv (ascii ''2026-01'')
       [newRecord (ascii ''2026-01-05'') (ascii ''09:20'') (ascii ''17:30'') exampleLateResult]))))
     = [Fin (67 / 10)] \<and>
   work (newRecord (ascii ''2026-01-05'') (ascii ''09:20'') (ascii ''17:30'') exampleLateResult)
     = Fin (20 / 3) \<and>
   Fin (67 / 10) \<noteq> Fin (20 / 3)"
  by code_simp

section \<open>Writing twice\<close>

lemma existingRecords_parsed:
  "(k, r) \<in> set (existingRecords env files path) \<Longrightarrow> \<exists>l. parseLine env l = Some r"
  using parseRecords_keyed by (fastforce simp: existingRecords_def split: option.splits)

lemma upserted_keyed_shaped:
  assumes "isDateShaped dateStr"
    and "(k, r) \<in> set (AList.update dateStr (newRecord dateStr clockIn clockOut result)
                            (existingRecords env files path))"
  shows "k = date r \<and> isDateShaped k"
proof
  show "k = date r" using upserted_keyed(1) [OF assms(2)] .
  show "isDateShaped k"
  proof (cases "k = dateStr")
    case True
    then show ?thesis using assms(1) by simp
  next
    case False
    then have "(k, r) \<in> set (existingRecords env files path)"
      using upserted_keyed(2) [OF assms(2)] by simp
    then show ?thesis using existingRecords_keyed by (fastforce simp: wellShaped_def)
  qed
qed

lemma sorted_keys_unique:
  fixes f :: "'a \<Rightarrow> 'b::linorder"
  assumes "sorted_wrt (<) (map f xs)" and "sorted_wrt (<) (map f ys)" and "set xs = set ys"
  shows "xs = ys"
proof -
  have sx: "sorted (map f xs)" "distinct (map f xs)" using assms(1) by (simp_all add: strict_sorted_iff)
  have sy: "sorted (map f ys)" "distinct (map f ys)" using assms(2) by (simp_all add: strict_sorted_iff)
  have "set (map f xs) = set (map f ys)" using assms(3) by simp
  then have eq: "map f xs = map f ys"
    using sx sy by (intro sorted_distinct_set_unique)
  have "inj_on f (set xs)" using sx(2) by (simp add: distinct_map)
  then have "inj_on f (set xs \<union> set ys)" using assms(3) by simp
  then show ?thesis using eq by (simp add: inj_on_map_eq_map)
qed

lemma set_joinWith: "set (joinWith sep xs) \<subseteq> set sep \<union> \<Union> (set ` set xs)"
  by (induction sep xs rule: joinWith.induct) auto

lemma noteText_one_line:
  assumes "list_all (\<lambda>n. 0x0A \<notin> set n) (notes_list result)"
  shows "0x0A \<notin> set (noteText result)"
proof -
  have "\<forall>n \<in> set (map escapeBars (notes_list result)). 0x0A \<notin> set n"
    using assms by (auto simp: list_all_iff escapeBars_def split: if_splits)
  moreover have "0x0A \<notin> set (ascii ''; '')" by (simp add: ascii_def)
  ultimately have "0x0A \<notin> set (joinWith (ascii ''; '') (map escapeBars (notes_list result)))"
    using set_joinWith [of "ascii ''; ''" "map escapeBars (notes_list result)"] by blast
  then show ?thesis by (simp add: noteText_def)
qed

lemma hoursStable_reread:
  assumes "hoursStable env r" and "trim (note_text r) = note_text r"
  shows "reread env r = r"
  using assms by (simp add: hoursStable_def reread_def)

text \<open>
  Claim C5, as amended. Let the date have the shape \<^verbatim>\<open>YYYY-MM-DD\<close>, let the times and the
  notes of the call contain no line feed, and let every record that the stored document
  holds for another date have hours that print as digits and dots and are read back from
  their print unchanged, as the hours of rows written by the program are. Then a second
  call with the same arguments returns what the first returned: the document of the month
  is the same, and so is every other file.
\<close>

theorem writeToObsidian_twice:
  assumes "collatesDates env" and "printsOnOneLine env" and "isDateShaped dateStr"
    and "0x0A \<notin> set clockIn" and "0x0A \<notin> set clockOut"
    and "list_all (\<lambda>n. 0x0A \<notin> set n) (notes_list result)"
    and "list_all (\<lambda>(k, r). k = dateStr \<or> hoursStable env r)
           (existingRecords env files (getObsidianPath env dateStr))"
  shows "writeToObsidian env (fst (writeToObsidian env files dateStr clockIn clockOut result))
           dateStr clockIn clockOut result
         = writeToObsidian env files dateStr clockIn clockOut result"
proof -
  define path where "path = getObsidianPath env dateStr"
  define new where "new = newRecord dateStr clockIn clockOut result"
  define month where "month = take 7 dateStr"
  define R1 where "R1 = AList.update dateStr new (existingRecords env files path)"
  define S1 where "S1 = sortedRecords env R1"
  define L1 where "L1 = ledgerLines env month S1"
  define files1 where "files1 = files(path \<mapsto> joinWith [0x0A] L1)"
  define R2 where "R2 = AList.update dateStr new (existingRecords env files1 path)"
  define S2 where "S2 = sortedRecords env R2"
  have first: "writeToObsidian env files dateStr clockIn clockOut result = (files1, path)"
    by (simp add: writeToObsidian_writtenRows writtenRows_def files1_def L1_def S1_def R1_def
        new_def month_def path_def)
  have second: "writeToObsidian env files1 dateStr clockIn clockOut result
                  = (files1(path \<mapsto> joinWith [0x0A] (ledgerLines env month S2)), path)"
    by (simp add: writeToObsidian_writtenRows writtenRows_def S2_def R2_def
        new_def month_def path_def)
  have dnew: "date new = dateStr" by (simp add: new_def newRecord_def)

  have keyed1: "\<forall>(k, r) \<in> set R1. k = date r \<and> isDateShaped k"
    using upserted_keyed_shaped [OF assms(3)] unfolding R1_def new_def by blast
  have dist1: "distinct (map fst R1)"
    by (simp add: R1_def distinct_update existingRecords_distinct)
  have sorted1: "sorted_wrt (<) (map date S1)"
    unfolding S1_def by (rule sortedRecords_strictly_ascending [OF assms(1) keyed1 dist1])
  have set1: "set S1 = snd ` set R1" by (simp add: S1_def set_sortedRecords)
  have mem1: "(date r, r) \<in> set R1" if "r \<in> set S1" for r
    using that keyed1 set1 by fastforce
  have shaped1: "isDateShaped (date r)" if "r \<in> set S1" for r
    using mem1 [OF that] keyed1 by fastforce
  have new1: "new \<in> set S1"
    using upserted_new_mem [of dateStr clockIn clockOut result] set1
    unfolding R1_def new_def by force

  have old1: "date r \<noteq> dateStr \<and> wellShaped r \<and> trim (note_text r) = note_text r \<and>
              hoursStable env r"
    if "r \<in> set S1" and "r \<noteq> new" for r
  proof -
    have m: "(date r, r) \<in> set R1" using mem1 that(1) .
    have ne: "date r \<noteq> dateStr"
      using upserted_keyed(3) m that(2) unfolding R1_def new_def by blast
    then have ex: "(date r, r) \<in> set (existingRecords env files path)"
      using upserted_keyed(2) m unfolding R1_def new_def by blast
    then have ws: "wellShaped r" using existingRecords_keyed by blast
    obtain l where "parseLine env l = Some r" using existingRecords_parsed [OF ex] by blast
    then have tr: "trim (note_text r) = note_text r" by (rule parseLine_wellShaped(2))
    have "hoursStable env r"
      using assms(7) ex ne unfolding list_all_iff path_def by fastforce
    then show ?thesis using ne ws tr by simp
  qed

  have parse_old: "parseLine env (renderRow env r) = Some r" if "r \<in> set S1" and "r \<noteq> new" for r
  proof -
    from old1 [OF that] have o: "wellShaped r" "trim (note_text r) = note_text r"
      "hoursStable env r" by simp_all
    then have "parseLine env (renderRow env r) = Some (reread env r)"
      by (intro parseLine_renderRow) (simp_all add: hoursStable_def)
    then show ?thesis using hoursStable_reread [OF o(3) o(2)] by simp
  qed
  have parse_date: "date q = date r"
    if "r \<in> set S1" and "parseLine env (renderRow env r) = Some q" for r q
    using renderRow_date [OF shaped1 [OF that(1)] that(2)] .

  have line_new: "0x0A \<notin> set (renderRow env new)"
  proof (rule renderRow_one_line [OF assms(2)])
    show "0x0A \<notin> set (date new)" using dnew isDateShaped_one_line [OF assms(3)] by simp
    show "0x0A \<notin> set (inTime new)" using assms(4) by (simp add: new_def newRecord_def)
    show "0x0A \<notin> set (outTime new)" using assms(5) by (simp add: new_def newRecord_def)
    show "0x0A \<notin> set (note_text new)"
      using noteText_one_line [OF assms(6)] by (simp add: new_def newRecord_def)
  qed
  have lines1: "\<forall>r \<in> set S1. 0x0A \<notin> set (renderRow env r)"
  proof
    fix r assume r: "r \<in> set S1"
    show "0x0A \<notin> set (renderRow env r)"
    proof (cases "r = new")
      case True
      then show ?thesis using line_new by simp
    next
      case False
      then show ?thesis using old1 [OF r] wellShaped_one_line [OF assms(2)] by blast
    qed
  qed
  have "0x0A \<notin> set month"
    unfolding month_def using isDateShaped_one_line [OF assms(3)] by (auto dest: in_set_takeD)
  then have split: "splitOn 0x0A (joinWith [0x0A] L1) = L1"
    unfolding L1_def using lines1 by (intro splitOn_joinWith_ledgerLines [OF assms(2)])

  define E2 where "E2 = existingRecords env files1 path"
  have E2: "E2 = foldl (addLine env) [] L1"
    by (simp add: E2_def existingRecords_def files1_def split parseRecords_foldl)
  obtain head foot where parts: "L1 = head @ map (renderRow env) S1 @ foot"
    "\<forall>l \<in> set head. parseLine env l = None" "\<forall>l \<in> set foot. parseLine env l = None"
    unfolding L1_def using ledgerLines_parts by blast

  have E2_sub: "\<exists>r \<in> set S1. parseLine env (renderRow env r) = Some q \<and> k = date q"
    if "(k, q) \<in> set E2" for k q
  proof -
    from foldl_addLine_mem [of k q env "[]" L1] that
    obtain l where l: "k = date q" "l \<in> set L1" "parseLine env l = Some q"
      unfolding E2 by auto
    then have "l \<in> set (map (renderRow env) S1)" using parts by auto
    then show ?thesis using l by auto
  qed
  have E2_sup: "map_of E2 (date r) = Some r" if r: "r \<in> set S1" and ne: "r \<noteq> new" for r
  proof -
    obtain A B where AB: "S1 = A @ r # B" using r by (meson split_list)
    have L: "L1 = (head @ map (renderRow env) A) @ renderRow env r
                    # (map (renderRow env) B @ foot)"
      using parts(1) AB by simp
    have dis: "distinct (map date S1)" using sorted1 by (simp add: strict_sorted_iff)
    have later: "\<forall>l \<in> set (map (renderRow env) B @ foot).
                   \<forall>q. parseLine env l = Some q \<longrightarrow> date q \<noteq> date r"
    proof (intro ballI allI impI)
      fix l q assume l: "l \<in> set (map (renderRow env) B @ foot)" and q: "parseLine env l = Some q"
      then have "l \<in> set (map (renderRow env) B)" using parts(3) by auto
      then obtain r' where r': "r' \<in> set B" "l = renderRow env r'" by auto
      then have "r' \<in> set S1" using AB by simp
      then have "date q = date r'" using parse_date q r'(2) by blast
      moreover have "date r' \<noteq> date r"
      proof -
        have "date r' \<in> date ` set B" using r'(1) by simp
        moreover have "date r \<notin> date ` set B" using dis AB by simp
        ultimately show ?thesis by auto
      qed
      ultimately show "date q \<noteq> date r" by simp
    qed
    show ?thesis
      unfolding E2 L
      by (rule foldl_addLine_last [OF parse_old [OF r ne] later])
  qed

  have keyed2: "\<forall>(k, r) \<in> set R2. k = date r \<and> isDateShaped k"
    using upserted_keyed_shaped [OF assms(3)] unfolding R2_def new_def by blast
  have dist2: "distinct (map fst R2)"
    by (simp add: R2_def distinct_update existingRecords_distinct)
  have sorted2: "sorted_wrt (<) (map date S2)"
    unfolding S2_def by (rule sortedRecords_strictly_ascending [OF assms(1) keyed2 dist2])
  have set2: "set S2 = snd ` set R2" by (simp add: S2_def set_sortedRecords)

  have "snd ` set R2 = set S1"
  proof (intro equalityI subsetI)
    fix q assume "q \<in> snd ` set R2"
    then obtain k where kq: "(k, q) \<in> set R2" by auto
    show "q \<in> set S1"
    proof (cases "k = dateStr")
      case True
      then have "q = new" using upserted_keyed(3) kq unfolding R2_def new_def by blast
      then show ?thesis using new1 by simp
    next
      case False
      then have "(k, q) \<in> set E2"
        using upserted_keyed(2) kq unfolding R2_def new_def E2_def by blast
      then obtain r where r: "r \<in> set S1" "parseLine env (renderRow env r) = Some q"
        "k = date q"
        using E2_sub by blast
      have "date q = date r" using parse_date r(1,2) by blast
      then have "r \<noteq> new" using False r(3) dnew by auto
      then have "parseLine env (renderRow env r) = Some r" using parse_old r(1) by blast
      then show ?thesis using r by simp
    qed
  next
    fix r assume r: "r \<in> set S1"
    show "r \<in> snd ` set R2"
    proof (cases "r = new")
      case True
      have "(dateStr, new) \<in> set R2"
        unfolding R2_def new_def by (rule upserted_new_mem)
      then show ?thesis using True by force
    next
      case False
      have "map_of (existingRecords env files1 path) (date r) = Some r"
        using E2_sup [OF r False] by (simp add: E2_def)
      moreover have "date r \<noteq> dateStr" using old1 [OF r False] by simp
      ultimately have "(date r, r) \<in> set R2"
        unfolding R2_def by (rule upserted_old_mem)
      then show ?thesis by force
    qed
  qed
  then have "set S2 = set S1" using set2 by simp
  then have "S2 = S1" by (rule sorted_keys_unique [OF sorted2 sorted1])
  then have "files1(path \<mapsto> joinWith [0x0A] (ledgerLines env month S2)) = files1"
    by (simp add: files1_def L1_def)
  then show ?thesis using first second by simp
qed

theorem writeToObsidian_twice_witness:
  "collatesDates exactEnv \<and> printsOnOneLine exactEnv \<and> isDateShaped (ascii ''2026-01-07'') \<and>
   0x0A \<notin> set (ascii ''09:20'') \<and> 0x0A \<notin> set (ascii ''17:30'') \<and>
   list_all (\<lambda>n. 0x0A \<notin> set n) (notes_list exampleLateResult) \<and>
   list_all (\<lambda>(k, r). k = ascii ''2026-01-07'' \<or> hoursStable exactEnv r)
     (existingRecords exactEnv [examplePath \<mapsto> exampleUnsorted]
        (getObsidianPath exactEnv (ascii ''2026-01-07''))) \<and>
   writeToObsidian exactEnv
       (fst (writeToObsidian exactEnv [examplePath \<mapsto> exampleUnsorted] (ascii ''2026-01-07'')
               (ascii ''09:20'') (ascii ''17:30'') exampleLateResult))
       (ascii ''2026-01-07'') (ascii ''09:20'') (ascii ''17:30'') exampleLateResult
     = writeToObsidian exactEnv [examplePath \<mapsto> exampleUnsorted] (ascii ''2026-01-07'')
         (ascii ''09:20'') (ascii ''17:30'') exampleLateResult"
proof -
  have c: "isDateShaped (ascii ''2026-01-07'')" by code_simp
  have d: "0x0A \<notin> set (ascii ''09:20'')" by code_simp
  have e: "0x0A \<notin> set (ascii ''17:30'')" by code_simp
  have f: "list_all (\<lambda>n. 0x0A \<notin> set n) (notes_list exampleLateResult)" by code_simp
  have g: "list_all (\<lambda>(k, r). k = ascii ''2026-01-07'' \<or> hoursStable exactEnv r)
     (existingRecords exactEnv [examplePath \<mapsto> exampleUnsorted]
        (getObsidianPath exactEnv (ascii ''2026-01-07'')))"
    by code_simp
  note inst = writeToObsidian_twice
    [where env = exactEnv and files = "[examplePath \<mapsto> exampleUnsorted]"
       and dateStr = "ascii ''2026-01-07''" and clockIn = "ascii ''09:20''"
       and clockOut = "ascii ''17:30''" and result = exampleLateResult]
  show ?thesis
    using collatesDates_exactEnv printsOnOneLine_exactEnv c d e f g
      inst [OF collatesDates_exactEnv printsOnOneLine_exactEnv c d e f g]
    by blast
qed

text \<open>
  The claim as it was stated fails for a stored row that the program would not have
  written: an overtime of 0.04 hours is positive and prints as 0.0. The first call writes
  the row with the overtime mark, the second call reads 0.0 from it and writes it without.
\<close>

theorem writeToObsidian_twice_counterexample:
  "map_option (\<lambda>doc. take 1 (drop 4 (splitOn 0x0A doc)))
     (fst (writeToObsidian exactEnv [examplePath \<mapsto> exampleHandEdited] (ascii ''2026-01-07'')
             (ascii ''08:00'') (ascii ''19:37'') exampleResult) examplePath)
     = Some [ascii ''| 2026-01-05 | 08:30 | 17:30 | 7.5 | 0.0 '' @ [0xD83D, 0xDD25]
               @ ascii '' |  |''] \<and>
   map_option (\<lambda>doc. take 1 (drop 4 (splitOn 0x0A doc)))
     (fst (writeToObsidian exactEnv
             (fst (writeToObsidian exactEnv [examplePath \<mapsto> exampleHandEdited]
                     (ascii ''2026-01-07'') (ascii ''08:00'') (ascii ''19:37'') exampleResult))
             (ascii ''2026-01-07'') (ascii ''08:00'') (ascii ''19:37'') exampleResult)
          examplePath)
     = Some [ascii ''| 2026-01-05 | 08:30 | 17:30 | 7.5 | 0.0 |  |''] \<and>
   fst (writeToObsidian exactEnv
          (fst (writeToObsidian exactEnv [examplePath \<mapsto> exampleHandEdited]
                  (ascii ''2026-01-07'') (ascii ''08:00'') (ascii ''19:37'') exampleResult))
          (ascii ''2026-01-07'') (ascii ''08:00'') (ascii ''19:37'') exampleResult)
       examplePath
     \<noteq> fst (writeToObsidian exactEnv [examplePath \<mapsto> exampleHandEdited]
              (ascii ''2026-01-07'') (ascii ''08:00'') (ascii ''19:37'') exampleResult)
           examplePath"
  by code_simp

section \<open>The runtime at decimal ties\<close>

text \<open>
  \<^verbatim>\<open>toFixed(1)\<close> rounds the double, not the decimal numeral: 0.15 and 0.35 are doubles just
  below the tie and print as 0.1 and 0.3, 0.45 is a double just above it and prints as 0.5,
  and 0.25 is an exact tie, which prints as the larger 0.3.
\<close>

lemma toFixed1_at_ties:
  "toFixed1 exactEnv (parseFloat exactEnv (ascii ''0.15'')) = ascii ''0.1''"
  "toFixed1 exactEnv (parseFloat exactEnv (ascii ''0.25'')) = ascii ''0.3''"
  "toFixed1 exactEnv (parseFloat exactEnv (ascii ''0.35'')) = ascii ''0.3''"
  "toFixed1 exactEnv (parseFloat exactEnv (ascii ''0.45'')) = ascii ''0.5''"
  "toFixed1 exactEnv (parseFloat exactEnv (ascii ''7.46'')) = ascii ''7.5''"
  by code_simp+

section \<open>The text of the deficit note\<close>

lemma digitsValue_snoc: "digitsValue (ds @ [c]) = digitsValue ds * 10 + (c - 48)"
  by (simp add: digitsValue_def)

lemma digitsValue_showNat: "digitsValue (showNat n) = n"
proof (induction n rule: showNat.induct)
  case (1 n)
  show ?case
  proof (cases "n < 10")
    case True
    then show ?thesis by (subst showNat.simps) (simp add: digitsValue_def)
  next
    case False
    then have "digitsValue (showNat n) = digitsValue (showNat (n div 10)) * 10 + n mod 10"
      by (subst showNat.simps) (simp add: digitsValue_snoc)
    then show ?thesis using "1.IH" False by simp
  qed
qed

lemma showNat_nonempty: "showNat n \<noteq> []"
  by (subst showNat.simps) simp

lemma showNat_all_digits: "list_all isDigit (showNat n)"
  using showNat_digits by (auto simp: list_all_iff)

text \<open>
  Claim C10. Whenever the clock-out time is strictly earlier than the effective start (the
  clock-in time, or 08:30, minute 510, if that is later), \<open>calcWorktime\<close> emits the deficit
  note, whose text states in decimal digits the number 450 minus the actual worked minutes
  (the clock-out minute minus the effective start, which is negative here; no lunch is
  deducted); this number is strictly greater than 450, although the returned worked hours
  are 0.
\<close>

theorem calcWorktime_deficit_note_unclamped:
  assumes "isValidTime clockIn" and "isValidTime clockOut"
    and "toMin clockIn = Some inMin" and "toMin clockOut = Some outMin"
    and "outMin < max inMin 510"
  shows "\<exists>r digits.
           calcWorktime clockIn clockOut = Some r \<and>
           [0x26A0, 0xFE0F] @ ascii ''  '' @ [0x5DE5, 0x4F5C, 0x65F6, 0x957F, 0x4E0D, 0x8DB3]
             @ ascii '' 7.5h'' @ [0xFF0C, 0x8FD8, 0x5DEE] @ ascii '' '' @ digits
             @ ascii '' '' @ [0x5206, 0x949F] \<in> set (notes_list r) \<and>
           digits \<noteq> [] \<and> list_all isDigit digits \<and>
           int (digitsValue digits) = 450 - (outMin - max inMin 510) \<and>
           450 - (outMin - max inMin 510) > 450 \<and>
           workHours r = 0"
proof -
  define deficit where "deficit = 450 - (outMin - max inMin 510)"
  define digits where "digits = showNat (nat deficit)"
  have es: "effectiveStart inMin = max inMin 510"
    by (simp add: effectiveStart_def WORK_START_def)
  have lt: "outMin < effectiveStart inMin" using assms(5) es by simp
  then have le: "outMin \<le> effectiveStart inMin" by simp
  have pos: "deficit > 450" using assms(5) by (simp add: deficit_def)
  have r: "calcWorktime clockIn clockOut = Some (calcMinutes clockIn inMin outMin)"
    by (simp add: calcWorktime_def assms(3,4))
  have w: "workHours (calcMinutes clockIn inMin outMin) = 0"
    using le by (simp add: calcMinutes_workHours no_lunch_overlap_before_start REQUIRED_WORK_def)
  have "deficitNote deficit \<in> set (notes_list (calcMinutes clockIn inMin outMin))"
    using lt
    by (simp add: calcMinutes_notes no_lunch_overlap_before_start [OF le] REQUIRED_WORK_def
        deficit_def es)
  moreover have "deficitNote deficit
      = [0x26A0, 0xFE0F] @ ascii ''  '' @ [0x5DE5, 0x4F5C, 0x65F6, 0x957F, 0x4E0D, 0x8DB3]
          @ ascii '' 7.5h'' @ [0xFF0C, 0x8FD8, 0x5DEE] @ ascii '' '' @ digits
          @ ascii '' '' @ [0x5206, 0x949F]"
    using pos by (simp add: deficitNote_def showInt_def digits_def)
  ultimately have n: "[0x26A0, 0xFE0F] @ ascii ''  ''
          @ [0x5DE5, 0x4F5C, 0x65F6, 0x957F, 0x4E0D, 0x8DB3]
          @ ascii '' 7.5h'' @ [0xFF0C, 0x8FD8, 0x5DEE] @ ascii '' '' @ digits
          @ ascii '' '' @ [0x5206, 0x949F]
        \<in> set (notes_list (calcMinutes clockIn inMin outMin))"
    by simp
  have d1: "digits \<noteq> []" by (simp add: digits_def showNat_nonempty)
  have d2: "list_all isDigit digits" by (simp add: digits_def showNat_all_digits)
  have d3: "int (digitsValue digits) = deficit"
    using pos by (simp add: digits_def digitsValue_showNat)
  show ?thesis
    using r n d1 d2 d3 pos w unfolding deficit_def by blast
qed

theorem calcWorktime_deficit_note_unclamped_witness:
  "isValidTime (ascii ''07:00'') \<and> isValidTime (ascii ''08:00'') \<and>
   toMin (ascii ''07:00'') = Some 420 \<and> toMin (ascii ''08:00'') = Some 480 \<and>
   (480::int) < max 420 510 \<and>
   map_option notes_list (calcWorktime (ascii ''07:00'') (ascii ''08:00''))
     = Some [[0x26A0, 0xFE0F] @ ascii ''  '' @ [0x5DE5, 0x4F5C, 0x65F6, 0x957F, 0x4E0D, 0x8DB3]
               @ ascii '' 7.5h'' @ [0xFF0C, 0x8FD8, 0x5DEE] @ ascii '' 480 ''
               @ [0x5206, 0x949F]] \<and>
   map_option workHours (calcWorktime (ascii ''07:00'') (ascii ''08:00'')) = Some 0 \<and>
   (\<exists>r digits.
        calcWorktime (ascii ''07:00'') (ascii ''08:00'') = Some r \<and>
        [0x26A0, 0xFE0F] @ ascii ''  '' @ [0x5DE5, 0x4F5C, 0x65F6, 0x957F, 0x4E0D, 0x8DB3]
          @ ascii '' 7.5h'' @ [0xFF0C, 0x8FD8, 0x5DEE] @ ascii '' '' @ digits
          @ ascii '' '' @ [0x5206, 0x949F] \<in> set (notes_list r) \<and>
        digits \<noteq> [] \<and> list_all isDigit digits \<and>
        int (digitsValue digits) = 450 - (480 - max 420 510) \<and>
        450 - (480 - max 420 510) > (450::int) \<and>
        workHours r = 0)"
proof -
  have a: "isValidTime (ascii ''07:00'')" by code_simp
  have b: "isValidTime (ascii ''08:00'')" by code_simp
  have c: "toMin (ascii ''07:00'') = Some 420" by code_simp
  have d: "toMin (ascii ''08:00'') = Some 480" by code_simp
  have e: "(480::int) < max 420 510" by simp
  have f: "map_option notes_list (calcWorktime (ascii ''07:00'') (ascii ''08:00''))
     = Some [[0x26A0, 0xFE0F] @ ascii ''  '' @ [0x5DE5, 0x4F5C, 0x65F6, 0x957F, 0x4E0D, 0x8DB3]
               @ ascii '' 7.5h'' @ [0xFF0C, 0x8FD8, 0x5DEE] @ ascii '' 480 ''
               @ [0x5206, 0x949F]]"
    by code_simp
  have g: "map_option workHours (calcWorktime (ascii ''07:00'') (ascii ''08:00'')) = Some 0"
    by code_simp
  show ?thesis
    using a b c d e f g calcWorktime_deficit_note_unclamped [OF a b c d e] by blast
qed

section \<open>The arguments of a call\<close>

text \<open>
  The callers of \<open>writeToObsidian\<close> pass times that \<open>isValidTime\<close> accepts and the result of
  \<open>calcWorktime\<close>: neither the times nor the notes contain a line feed.
\<close>

lemma isValidTime_one_line:
  assumes "isValidTime t"
  shows "0x0A \<notin> set t"
proof -
  obtain res where
    "matchSeq (Rep 2 isDigit # Lit 0x3A # Rep 2 isDigit # [Eol]) t t [] [] = Some res"
    using assms
    by (auto simp add: isValidTime_def jsTest_def timePattern_def jsMatch_Bol
        simp del: matchSeq.simps)
  from matchSeq_Rep_elim [OF this]
  obtain h t1 where 1: "t = h @ t1" "list_all isDigit h"
    and m1: "matchSeq (Lit 0x3A # Rep 2 isDigit # [Eol]) t t1 [] [] = Some res"
    by blast
  from matchSeq_Lit_elim [OF m1]
  obtain t2 where 2: "t1 = 0x3A # t2"
    and m2: "matchSeq (Rep 2 isDigit # [Eol]) t t2 [] [] = Some res"
    by blast
  from matchSeq_Rep_elim [OF m2]
  obtain m t3 where 3: "t2 = m @ t3" "list_all isDigit m"
    and m3: "matchSeq [Eol] t t3 [] [] = Some res"
    by blast
  have "t3 = []" using m3 by (simp split: if_splits)
  then have "t = h @ 0x3A # m" using 1 2 3 by simp
  then show ?thesis using 1(2) 3(2) by (auto simp: list_all_iff isDigit_def)
qed

lemma showInt_one_line: "0x0A \<notin> set (showInt i)"
  by (simp add: showInt_def showNat_one_line)

lemma calcWorktime_notes_one_line:
  assumes "0x0A \<notin> set clockIn" and "calcWorktime clockIn clockOut = Some r"
  shows "list_all (\<lambda>n. 0x0A \<notin> set n) (notes_list r)"
proof -
  obtain i out where "r = calcMinutes clockIn i out"
    using assms(2) by (auto simp: calcWorktime_def split: option.splits)
  then show ?thesis
    using assms(1)
    by (simp add: calcMinutes_notes lateNote_def deficitNote_def showInt_one_line ascii_def)
qed

section \<open>The rows of the written document\<close>

lemma isDateShaped_no_blank: "isDateShaped d \<Longrightarrow> 0x20 \<notin> set d"
  using isDateShaped_facts(4) [of d] by (auto simp: isDigit_def)

lemma rowDate_renderRow:
  assumes "0x20 \<notin> set (date r)"
  shows "rowDate (renderRow env r) = date r"
proof -
  have "takeWhile (\<lambda>c. c \<noteq> 0x20) (date r @ 0x20 # rest) = date r" for rest
    using assms by (subst takeWhile_append2) auto
  then show ?thesis by (simp add: rowDate_def renderRow_columns)
qed

lemma ledgerLines_frame:
  "\<exists>head foot. ledgerLines env month rows = head @ map (renderRow env) rows @ foot \<and>
      length head = 4 \<and> length foot = 5 \<and>
      list_all (\<lambda>l. \<not> jsTest rowPattern l) (head @ foot)"
proof -
  define head where "head =
     [ascii ''# '' @ month @ ascii '' '' @ [0x52A0, 0x73ED, 0x8BB0, 0x5F55],
      [],
      ascii ''| '' @ [0x65E5, 0x671F] @ ascii '' | '' @ [0x4E0A, 0x73ED] @ ascii '' | ''
        @ [0x4E0B, 0x73ED] @ ascii '' | '' @ [0x5DE5, 0x65F6] @ ascii '' | '' @ [0x52A0, 0x73ED]
        @ ascii '' | '' @ [0x5907, 0x6CE8] @ ascii '' |'',
      ascii ''| :---: | :---: | :---: | :---: | :---: | :--- |'']"
  define foot where "foot = [[], ascii ''---'', [], summaryLine env rows, []]"
  have 1: "ledgerLines env month rows = head @ map (renderRow env) rows @ foot"
    by (simp add: ledgerLines_def head_def foot_def)
  have t: "parseLine env (ascii ''# '' @ month @ ascii '' '' @ [0x52A0, 0x73ED, 0x8BB0, 0x5F55])
             = None"
    by (rule no_bar_no_row) (simp add: ascii_def)
  have e: "parseLine env [] = None" by (rule no_bar_no_row) simp
  have d: "parseLine env (ascii ''---'') = None" by (rule no_bar_no_row) (simp add: ascii_def)
  have s: "parseLine env (summaryLine env rows) = None"
    by (rule no_bar_no_row) (simp add: summaryLine_def Let_def ascii_def)
  have 2: "list_all (\<lambda>l. \<not> jsTest rowPattern l) head"
    using t e header_lines_no_row by (simp add: head_def parseLine_None_iff)
  have 3: "list_all (\<lambda>l. \<not> jsTest rowPattern l) foot"
    using e d s by (simp add: foot_def parseLine_None_iff)
  have 4: "length head = 4" by (simp add: head_def)
  have 5: "length foot = 5" by (simp add: foot_def)
  show ?thesis using 1 2 3 4 5 by (intro exI [of _ head] exI [of _ foot]) simp
qed

lemma documentRows_frame:
  assumes "splitOn 0x0A doc = head @ rs @ foot" and "length head = 4" and "length foot = 5"
  shows "documentRows doc = rs"
  using assms by (simp add: documentRows_def)

lemma distinct_map_insertBy:
  "distinct (map f (insertBy cmp x ys)) \<longleftrightarrow> f x \<notin> f ` set ys \<and> distinct (map f ys)"
  by (induction ys) (auto simp: set_insertBy)

lemma distinct_map_sortBy: "distinct (map f (sortBy cmp xs)) \<longleftrightarrow> distinct (map f xs)"
  by (induction xs) (auto simp: sortBy_def distinct_map_insertBy set_sortBy [unfolded sortBy_def])

lemma filter_unique_key:
  assumes "distinct (map f xs)" and "x \<in> set xs"
  shows "filter (\<lambda>y. f y = f x) xs = [x]"
  using assms
proof (induction xs)
  case Nil
  then show ?case by simp
next
  case (Cons a xs)
  show ?case
  proof (cases "a = x")
    case True
    have "\<forall>y \<in> set xs. f y \<noteq> f x" using Cons.prems(1) True by (auto simp: image_iff)
    then have "filter (\<lambda>y. f y = f x) xs = []" by (simp add: filter_empty_conv)
    then show ?thesis using True by simp
  next
    case False
    then have m: "x \<in> set xs" using Cons.prems(2) by simp
    then have "f a \<noteq> f x" using Cons.prems(1) by auto
    then show ?thesis using Cons.IH m Cons.prems(1) by simp
  qed
qed

text \<open>The records from which a call writes: the record of the call and well-shaped old ones.\<close>

lemma writtenRows_cases:
  assumes "r \<in> set (writtenRows env files dateStr clockIn clockOut result)"
  shows "r = newRecord dateStr clockIn clockOut result \<or> (date r \<noteq> dateStr \<and> wellShaped r)"
proof -
  obtain k where k: "(k, r) \<in> set (AList.update dateStr (newRecord dateStr clockIn clockOut result)
                            (existingRecords env files (getObsidianPath env dateStr)))"
    using assms unfolding writtenRows_def set_sortedRecords by auto
  show ?thesis
  proof (cases "k = dateStr")
    case True
    then show ?thesis using upserted_keyed(3) [OF k] by simp
  next
    case False
    have kd: "k = date r" using upserted_keyed(1) [OF k] .
    have "(k, r) \<in> set (existingRecords env files (getObsidianPath env dateStr))"
      using upserted_keyed(2) [OF k False] .
    then have "wellShaped r" using existingRecords_keyed by blast
    then show ?thesis using False kd by simp
  qed
qed

lemma writtenRows_distinct:
  "distinct (map date (writtenRows env files dateStr clockIn clockOut result))"
proof -
  define records where
    "records = AList.update dateStr (newRecord dateStr clockIn clockOut result)
                 (existingRecords env files (getObsidianPath env dateStr))"
  have "\<forall>(k, r) \<in> set records. k = date r"
    using upserted_keyed(1) unfolding records_def by fast
  then have "map date (map snd records) = map fst records" by (rule keyed_map_date)
  moreover have "distinct (map fst records)"
    by (simp add: records_def distinct_update existingRecords_distinct)
  ultimately have "distinct (map date (map snd records))" by (simp only:)
  then show ?thesis
    by (simp only: writtenRows_def sortedRecords_def distinct_map_sortBy records_def)
qed

lemma writtenRows_new:
  "newRecord dateStr clockIn clockOut result
     \<in> set (writtenRows env files dateStr clockIn clockOut result)"
proof -
  have "(dateStr, newRecord dateStr clockIn clockOut result)
     \<in> set (AList.update dateStr (newRecord dateStr clockIn clockOut result)
              (existingRecords env files (getObsidianPath env dateStr)))"
    by (rule upserted_new_mem)
  then show ?thesis unfolding writtenRows_def set_sortedRecords by force
qed


lemma writtenRows_rowDate:
  assumes "isDateShaped dateStr"
    and "r \<in> set (writtenRows env files dateStr clockIn clockOut result)"
  shows "isDateShaped (date r)" and "rowDate (renderRow env r) = date r"
proof -
  show s: "isDateShaped (date r)"
    using writtenRows_cases [OF assms(2)] assms(1) by (auto simp: newRecord_def wellShaped_def)
  show "rowDate (renderRow env r) = date r"
    by (rule rowDate_renderRow) (rule isDateShaped_no_blank [OF s])
qed

lemma writtenRows_one_line:
  assumes "printsOnOneLine env" and "isDateShaped dateStr"
    and "0x0A \<notin> set clockIn" and "0x0A \<notin> set clockOut"
    and "list_all (\<lambda>n. 0x0A \<notin> set n) (notes_list result)"
    and "r \<in> set (writtenRows env files dateStr clockIn clockOut result)"
  shows "0x0A \<notin> set (renderRow env r)"
  using writtenRows_cases [OF assms(6)]
proof
  assume r: "r = newRecord dateStr clockIn clockOut result"
  show ?thesis
  proof (rule renderRow_one_line [OF assms(1)])
    show "0x0A \<notin> set (date r)"
      using isDateShaped_one_line [OF assms(2)] by (simp add: r newRecord_def)
    show "0x0A \<notin> set (inTime r)" using assms(3) by (simp add: r newRecord_def)
    show "0x0A \<notin> set (outTime r)" using assms(4) by (simp add: r newRecord_def)
    show "0x0A \<notin> set (note_text r)"
      using noteText_one_line [OF assms(5)] by (simp add: r newRecord_def)
  qed
next
  assume "date r \<noteq> dateStr \<and> wellShaped r"
  then show ?thesis using wellShaped_one_line [OF assms(1)] by blast
qed

text \<open>
  The written document, split at its line feeds, is four heading lines, the rendered rows
  of the sorted records and five closing lines.
\<close>

lemma written_document:
  assumes "printsOnOneLine env" and "isDateShaped dateStr"
    and "0x0A \<notin> set clockIn" and "0x0A \<notin> set clockOut"
    and "list_all (\<lambda>n. 0x0A \<notin> set n) (notes_list result)"
  shows "\<exists>doc head foot.
           fst (writeToObsidian env files dateStr clockIn clockOut result)
               (getObsidianPath env dateStr) = Some doc \<and>
           splitOn 0x0A doc = head @ documentRows doc @ foot \<and>
           length head = 4 \<and> length foot = 5 \<and>
           list_all (\<lambda>l. \<not> jsTest rowPattern l) (head @ foot) \<and>
           documentRows doc
             = map (renderRow env) (writtenRows env files dateStr clockIn clockOut result)"
proof -
  define rows where "rows = writtenRows env files dateStr clockIn clockOut result"
  define doc where "doc = joinWith [0x0A] (ledgerLines env (take 7 dateStr) rows)"
  have 1: "fst (writeToObsidian env files dateStr clockIn clockOut result)
               (getObsidianPath env dateStr) = Some doc"
    by (simp add: writeToObsidian_writtenRows rows_def doc_def)
  have m: "0x0A \<notin> set (take 7 dateStr)"
    using isDateShaped_one_line [OF assms(2)] by (auto dest: in_set_takeD)
  have l: "\<forall>r \<in> set rows. 0x0A \<notin> set (renderRow env r)"
    unfolding rows_def using writtenRows_one_line [OF assms] by blast
  have s: "splitOn 0x0A doc = ledgerLines env (take 7 dateStr) rows"
    unfolding doc_def by (rule splitOn_joinWith_ledgerLines [OF assms(1) m l])
  obtain head foot where f:
    "ledgerLines env (take 7 dateStr) rows = head @ map (renderRow env) rows @ foot"
    "length head = 4" "length foot = 5"
    "list_all (\<lambda>l. \<not> jsTest rowPattern l) (head @ foot)"
    using ledgerLines_frame [of env "take 7 dateStr" rows] by blast
  have d: "documentRows doc = map (renderRow env) rows"
    using s f(1,2,3) by (intro documentRows_frame [of doc head _ foot]) simp_all
  have 2: "splitOn 0x0A doc = head @ documentRows doc @ foot"
    using s f(1) d by simp
  show ?thesis
    using 1 2 f(2,3,4) d unfolding rows_def by blast
qed

lemma rendered_rows_of_date:
  assumes "isDateShaped dateStr"
    and "r \<in> set (writtenRows env files dateStr clockIn clockOut result)"
  shows "filter (\<lambda>l. rowDate l = date r)
           (map (renderRow env) (writtenRows env files dateStr clockIn clockOut result))
         = [renderRow env r]"
proof -
  define rows where "rows = writtenRows env files dateStr clockIn clockOut result"
  have "filter (\<lambda>l. rowDate l = date r) (map (renderRow env) rows)
        = map (renderRow env) (filter (\<lambda>q. rowDate (renderRow env q) = date r) rows)"
    by (simp add: filter_map comp_def)
  also have "filter (\<lambda>q. rowDate (renderRow env q) = date r) rows
             = filter (\<lambda>q. date q = date r) rows"
  proof (rule filter_cong [OF refl])
    fix q assume "q \<in> set rows"
    then have "rowDate (renderRow env q) = date q"
      unfolding rows_def by (rule writtenRows_rowDate(2) [OF assms(1)])
    then show "(rowDate (renderRow env q) = date r) = (date q = date r)" by simp
  qed
  also have "\<dots> = [r]"
    using writtenRows_distinct assms(2) unfolding rows_def by (intro filter_unique_key)
  finally show ?thesis unfolding rows_def by simp
qed

lemma rendered_rows_dates:
  assumes "isDateShaped dateStr"
  shows "map rowDate (map (renderRow env) (writtenRows env files dateStr clockIn clockOut result))
         = map date (writtenRows env files dateStr clockIn clockOut result)"
  unfolding map_map
  by (rule map_cong [OF refl]) (simp add: writtenRows_rowDate(2) [OF assms])

lemma writtenRows_strictly_ascending:
  assumes "collatesDates env" and "isDateShaped dateStr"
  shows "sorted_wrt (<) (map date (writtenRows env files dateStr clockIn clockOut result))"
  unfolding writtenRows_def
proof (rule sortedRecords_strictly_ascending [OF assms(1)])
  show "\<forall>(k, r) \<in> set (AList.update dateStr (newRecord dateStr clockIn clockOut result)
                          (existingRecords env files (getObsidianPath env dateStr))).
          k = date r \<and> isDateShaped k"
    using upserted_keyed_shaped [OF assms(2)] by blast
  show "distinct (map fst (AList.update dateStr (newRecord dateStr clockIn clockOut result)
                             (existingRecords env files (getObsidianPath env dateStr))))"
    by (simp add: distinct_update existingRecords_distinct)
qed

text \<open>
  Claim C6. After every call of \<open>writeToObsidian\<close> for a date of the shape \<^verbatim>\<open>YYYY-MM-DD\<close>,
  with times and notes that contain no line feed, and whatever the store held before: a
  document is written for the month; its lines are four heading lines, the data rows and
  five closing lines, and no heading or closing line is a row; the dates in the first
  column of the data rows are strictly ascending, hence without a duplicate; each of them
  has the shape \<^verbatim>\<open>YYYY-MM-DD\<close>, so that the order is the order of the calendar; and the
  document has exactly one row for the date of the call, which carries the times, the
  hours and the notes of the call.
\<close>

theorem writeToObsidian_dates_strictly_ascending:
  assumes "collatesDates env" and "printsOnOneLine env" and "isDateShaped dateStr"
    and "0x0A \<notin> set clockIn" and "0x0A \<notin> set clockOut"
    and "list_all (\<lambda>n. 0x0A \<notin> set n) (notes_list result)"
  shows "\<exists>doc head foot.
           fst (writeToObsidian env files dateStr clockIn clockOut result)
               (getObsidianPath env dateStr) = Some doc \<and>
           splitOn 0x0A doc = head @ documentRows doc @ foot \<and>
           length head = 4 \<and> length foot = 5 \<and>
           list_all (\<lambda>l. \<not> jsTest rowPattern l) (head @ foot) \<and>
           sorted_wrt (<) (map rowDate (documentRows doc)) \<and>
           list_all isDateShaped (map rowDate (documentRows doc)) \<and>
           filter (\<lambda>l. rowDate l = dateStr) (documentRows doc)
             = [ascii ''| '' @ dateStr @ ascii '' | '' @ clockIn @ ascii '' | '' @ clockOut
                  @ ascii '' | '' @ toFixed1 env (workHours result)
                  @ ascii '' | '' @ toFixed1 env (overtimeHours result)
                  @ (if isPositive env (overtimeHours result)
                     then ascii '' '' @ [0xD83D, 0xDD25] else [])
                  @ ascii '' | '' @ noteText result @ ascii '' |'']"
proof -
  define rows where "rows = writtenRows env files dateStr clockIn clockOut result"
  define new where "new = newRecord dateStr clockIn clockOut result"
  from written_document [OF assms(2-6), of files]
  obtain doc head foot where w:
    "fst (writeToObsidian env files dateStr clockIn clockOut result)
         (getObsidianPath env dateStr) = Some doc"
    "splitOn 0x0A doc = head @ documentRows doc @ foot"
    "length head = 4" "length foot = 5"
    "list_all (\<lambda>l. \<not> jsTest rowPattern l) (head @ foot)"
    "documentRows doc = map (renderRow env) rows"
    unfolding rows_def by blast
  have dates: "map rowDate (documentRows doc) = map date rows"
    unfolding w(6) rows_def by (rule rendered_rows_dates [OF assms(3)])
  have 1: "sorted_wrt (<) (map rowDate (documentRows doc))"
    unfolding dates rows_def by (rule writtenRows_strictly_ascending [OF assms(1,3)])
  have 2: "list_all isDateShaped (map rowDate (documentRows doc))"
    unfolding dates rows_def list_all_iff using writtenRows_rowDate(1) [OF assms(3)]
    by auto
  have "new \<in> set rows" unfolding new_def rows_def by (rule writtenRows_new)
  then have "filter (\<lambda>l. rowDate l = date new) (map (renderRow env) rows) = [renderRow env new]"
    unfolding rows_def by (rule rendered_rows_of_date [OF assms(3)])
  then have 3: "filter (\<lambda>l. rowDate l = dateStr) (documentRows doc)
             = [ascii ''| '' @ dateStr @ ascii '' | '' @ clockIn @ ascii '' | '' @ clockOut
                  @ ascii '' | '' @ toFixed1 env (workHours result)
                  @ ascii '' | '' @ toFixed1 env (overtimeHours result)
                  @ (if isPositive env (overtimeHours result)
                     then ascii '' '' @ [0xD83D, 0xDD25] else [])
                  @ ascii '' | '' @ noteText result @ ascii '' |'']"
    unfolding w(6) by (simp add: new_def newRecord_def renderRow_def)
  show ?thesis using w(1-5) 1 2 3 by blast
qed

theorem writeToObsidian_dates_strictly_ascending_witness:
  "collatesDates exactEnv \<and> printsOnOneLine exactEnv \<and> isDateShaped (ascii ''2026-01-05'') \<and>
   0x0A \<notin> set (ascii ''08:00'') \<and> 0x0A \<notin> set (ascii ''19:37'') \<and>
   list_all (\<lambda>n. 0x0A \<notin> set n) (notes_list exampleResult) \<and>
   (\<exists>doc head foot.
      fst (writeToObsidian exactEnv [examplePath \<mapsto> exampleUnsorted] (ascii ''2026-01-05'')
             (ascii ''08:00'') (ascii ''19:37'') exampleResult)
          (getObsidianPath exactEnv (ascii ''2026-01-05'')) = Some doc \<and>
      splitOn 0x0A doc = head @ documentRows doc @ foot \<and>
      length head = 4 \<and> length foot = 5 \<and>
      list_all (\<lambda>l. \<not> jsTest rowPattern l) (head @ foot) \<and>
      sorted_wrt (<) (map rowDate (documentRows doc)) \<and>
      list_all isDateShaped (map rowDate (documentRows doc)) \<and>
      filter (\<lambda>l. rowDate l = ascii ''2026-01-05'') (documentRows doc)
        = [ascii ''| '' @ ascii ''2026-01-05'' @ ascii '' | '' @ ascii ''08:00'' @ ascii '' | ''
             @ ascii ''19:37''
             @ ascii '' | '' @ toFixed1 exactEnv (workHours exampleResult)
             @ ascii '' | '' @ toFixed1 exactEnv (overtimeHours exampleResult)
             @ (if isPositive exactEnv (overtimeHours exampleResult)
                then ascii '' '' @ [0xD83D, 0xDD25] else [])
             @ ascii '' | '' @ noteText exampleResult @ ascii '' |'']) \<and>
   map_option documentRows
     (fst (writeToObsidian exactEnv [examplePath \<mapsto> exampleUnsorted] (ascii ''2026-01-05'')
             (ascii ''08:00'') (ascii ''19:37'') exampleResult)
          (getObsidianPath exactEnv (ascii ''2026-01-05'')))
     = Some [ascii ''| 2026-01-05 | 08:00 | 19:37 | 7.5 | 1.5 '' @ [0xD83D, 0xDD25] @ ascii '' |  |'',
             ascii ''| 2026-01-09 | 08:30 | 17:30 | 7.5 | 0.0 |  |''] \<and>
   map rowDate
     [ascii ''| 2026-01-05 | 08:00 | 19:37 | 7.5 | 1.5 '' @ [0xD83D, 0xDD25] @ ascii '' |  |'',
      ascii ''| 2026-01-09 | 08:30 | 17:30 | 7.5 | 0.0 |  |'']
     = [ascii ''2026-01-05'', ascii ''2026-01-09'']"
proof -
  have a: "isDateShaped (ascii ''2026-01-05'')" by code_simp
  have b: "0x0A \<notin> set (ascii ''08:00'')" by code_simp
  have c: "0x0A \<notin> set (ascii ''19:37'')" by code_simp
  have d: "list_all (\<lambda>n. 0x0A \<notin> set n) (notes_list exampleResult)" by code_simp
  have e: "map_option documentRows
     (fst (writeToObsidian exactEnv [examplePath \<mapsto> exampleUnsorted] (ascii ''2026-01-05'')
             (ascii ''08:00'') (ascii ''19:37'') exampleResult)
          (getObsidianPath exactEnv (ascii ''2026-01-05'')))
     = Some [ascii ''| 2026-01-05 | 08:00 | 19:37 | 7.5 | 1.5 '' @ [0xD83D, 0xDD25] @ ascii '' |  |'',
             ascii ''| 2026-01-09 | 08:30 | 17:30 | 7.5 | 0.0 |  |'']"
    by code_simp
  have f: "map rowDate
     [ascii ''| 2026-01-05 | 08:00 | 19:37 | 7.5 | 1.5 '' @ [0xD83D, 0xDD25] @ ascii '' |  |'',
      ascii ''| 2026-01-09 | 08:30 | 17:30 | 7.5 | 0.0 |  |'']
     = [ascii ''2026-01-05'', ascii ''2026-01-09'']"
    by code_simp
  note inst = writeToObsidian_dates_strictly_ascending
    [where env = exactEnv and files = "[examplePath \<mapsto> exampleUnsorted]"
       and dateStr = "ascii ''2026-01-05''" and clockIn = "ascii ''08:00''"
       and clockOut = "ascii ''19:37''" and result = exampleResult]
  show ?thesis
    using collatesDates_exactEnv printsOnOneLine_exactEnv a b c d e f
      inst [OF collatesDates_exactEnv printsOnOneLine_exactEnv a b c d]
    by (intro conjI) assumption+
qed




end
